theory Spec2Isabelle
  imports Complex_Main
begin

section \<open>Payment routing and retry engine\<close>

text \<open>
  A shallow embedding of the routing core of the payments backend: the circuit breaker,
  the health tracker, the request executor and the POST /payments handler of
  \<^verbatim>\<open>payments.ts\<close>, the retry queue of \<^verbatim>\<open>queue.ts\<close> and the settlement ledger
  of \<^verbatim>\<open>summary.ts\<close>.

  The module-level variables of the source are fields of explicit state records that
  every function takes and returns. Everything the source reads from outside (the
  clock, the outcome of a health probe, of a \<^verbatim>\<open>fetch\<close>, of a Redis command) is a
  parameter. Times are epoch milliseconds (\<open>int\<close>), counters are \<open>nat\<close>.
\<close>

subsection \<open>Circuit breaker (payments.ts)\<close>

definition HEALTH_TTL :: int where
  "HEALTH_TTL = 5000"

definition CIRCUIT_BREAKER_THRESHOLD :: nat where
  "CIRCUIT_BREAKER_THRESHOLD = 20"

definition CIRCUIT_BREAKER_TIMEOUT :: int where
  "CIRCUIT_BREAKER_TIMEOUT = 10000"

definition MAX_RETRIES :: nat where
  "MAX_RETRIES = 2"

record ProcessorStats =
  failures :: nat
  lastFailure :: int
  circuitOpen :: bool

text \<open>The value both \<^verbatim>\<open>processor1Stats\<close> and \<^verbatim>\<open>processor2Stats\<close> start with.\<close>

definition initialStats :: ProcessorStats where
  "initialStats = \<lparr>failures = 0, lastFailure = 0, circuitOpen = False\<rparr>"

text \<open>
  \<^verbatim>\<open>isCircuitOpen\<close> reads the clock (\<open>now\<close>) and may reset the statistics it is given;
  the model returns the answer together with the statistics afterwards.
\<close>

definition isCircuitOpen :: "int \<Rightarrow> ProcessorStats \<Rightarrow> bool \<times> ProcessorStats" where
  "isCircuitOpen now stats =
     (if \<not> circuitOpen stats then (False, stats)
      else if now - lastFailure stats > CIRCUIT_BREAKER_TIMEOUT
        then (False, stats\<lparr>circuitOpen := False, failures := 0\<rparr>)
      else (True, stats))"

definition recordFailure :: "int \<Rightarrow> ProcessorStats \<Rightarrow> ProcessorStats" where
  "recordFailure now stats =
     (let counted = stats\<lparr>failures := failures stats + 1, lastFailure := now\<rparr>
      in if failures counted \<ge> CIRCUIT_BREAKER_THRESHOLD
         then counted\<lparr>circuitOpen := True\<rparr>
         else counted)"

definition recordSucces :: "ProcessorStats \<Rightarrow> ProcessorStats" where
  "recordSucces stats = stats\<lparr>failures := 0, circuitOpen := False\<rparr>"

text \<open>
  The three operations are the only code that writes a \<^verbatim>\<open>ProcessorStats\<close>. A history of
  one breaker is therefore a list of these events, applied to the initial statistics.
\<close>

datatype breaker_event = Failure int | Success | Check int

fun breaker_step :: "ProcessorStats \<Rightarrow> breaker_event \<Rightarrow> ProcessorStats" where
  "breaker_step s (Failure now) = recordFailure now s"
| "breaker_step s Success = recordSucces s"
| "breaker_step s (Check now) = snd (isCircuitOpen now s)"

definition breaker_run :: "breaker_event list \<Rightarrow> ProcessorStats" where
  "breaker_run evs = foldl breaker_step initialStats evs"

subsection \<open>Health tracker (payments.ts, healthcheck.ts)\<close>

text \<open>Fields \<^verbatim>\<open>last\<close>, \<^verbatim>\<open>p1\<close>, \<^verbatim>\<open>p2\<close> of the source's \<^verbatim>\<open>HealthCache\<close>.\<close>

record HealthCache =
  cache_last :: int
  cache_p1 :: bool
  cache_p2 :: bool

text \<open>
  How one \<^verbatim>\<open>Promise.race([healthcheckN(), timer 2000 ms])\<close> settles: the probe's HTTP
  request resolved with a status code before the timer, the request rejected, or the
  timer rejected first.
\<close>

datatype probe_result = ProbeStatus nat | ProbeThrew | ProbeTimeout

definition checkHealth :: "nat \<Rightarrow> bool" where
  "checkHealth statusCode = (statusCode \<ge> 200 \<and> statusCode < 300)"

text \<open>
  \<^verbatim>\<open>status == 'fulfilled' ? Boolean(value?.healthy ?? value) : false\<close>, where a
  fulfilled value is \<^verbatim>\<open>{healthy: await checkHealth(url)}\<close>.
\<close>

definition settledHealthy :: "probe_result \<Rightarrow> bool" where
  "settledHealthy r =
     (case r of ProbeStatus c \<Rightarrow> checkHealth c | ProbeThrew \<Rightarrow> False | ProbeTimeout \<Rightarrow> False)"

text \<open>
  The race of \<^verbatim>\<open>getHealth\<close> itself. A probe, left alone, settles \<open>latency\<close> milliseconds
  after it is launched, with a status code or with a rejection; the timer it races
  against rejects after \<open>PROBE_TIMEOUT\<close> milliseconds. A probe that needs that long or
  longer loses the race. \<open>race_time\<close> is when the race settles.
\<close>

definition PROBE_TIMEOUT :: int where
  "PROBE_TIMEOUT = 2000"

datatype probe_reply = Replies nat | Rejects

record probe =
  latency :: int
  reply :: probe_reply

definition race :: "probe \<Rightarrow> probe_result" where
  "race p =
     (if latency p < PROBE_TIMEOUT
      then (case reply p of Replies c \<Rightarrow> ProbeStatus c | Rejects \<Rightarrow> ProbeThrew)
      else ProbeTimeout)"

definition race_time :: "probe \<Rightarrow> int" where
  "race_time p = min (latency p) PROBE_TIMEOUT"

record payments_state =
  healthCache :: HealthCache
  processor1Stats :: ProcessorStats
  processor2Stats :: ProcessorStats

definition initialPayments :: payments_state where
  "initialPayments =
     \<lparr>healthCache = \<lparr>cache_last = 0, cache_p1 = False, cache_p2 = False\<rparr>,
      processor1Stats = initialStats, processor2Stats = initialStats\<rparr>"

text \<open>
  What one call of \<^verbatim>\<open>getHealth\<close> reads: the clock at entry, the two probes, and the
  clock seen by each \<^verbatim>\<open>isCircuitOpen\<close>.
\<close>

record health_env =
  now_h :: int
  probe1 :: probe
  probe2 :: probe
  now_cb1 :: int
  now_cb2 :: int

text \<open>
  What a call did about probing: the number of probes launched, and how long the
  \<^verbatim>\<open>await Promise.allSettled\<close> lasted. Both races are started before the \<^verbatim>\<open>await\<close>, so
  it lasts until the later of the two settles.
\<close>

record probing =
  launched :: nat
  settled_in :: int

text \<open>
  \<^verbatim>\<open>pHealthy && !isCircuitOpen(stats)\<close> short-circuits: the breaker is consulted (and can
  reset itself) only when the probe said healthy.
\<close>

definition healthyAndClosed :: "bool \<Rightarrow> int \<Rightarrow> ProcessorStats \<Rightarrow> bool \<times> ProcessorStats" where
  "healthyAndClosed pHealthy now stats =
     (if pHealthy then (let (isOpen, stats') = isCircuitOpen now stats in (\<not> isOpen, stats'))
      else (False, stats))"

text \<open>
  The result is the health pair, what was done about probing, and the state
  afterwards. \<^verbatim>\<open>Promise.allSettled\<close> never rejects and nothing else in the source's
  \<^verbatim>\<open>try\<close> block throws, so its \<^verbatim>\<open>catch\<close> block has no branch here.
\<close>

definition getHealth ::
  "health_env \<Rightarrow> payments_state \<Rightarrow> (bool \<times> bool) \<times> probing \<times> payments_state" where
  "getHealth env st =
     (let now = now_h env in
      if now - cache_last (healthCache st) < HEALTH_TTL
      then ((cache_p1 (healthCache st), cache_p2 (healthCache st)),
            \<lparr>launched = 0, settled_in = 0\<rparr>, st)
      else
        (let p1Healthy = settledHealthy (race (probe1 env));
             p2Healthy = settledHealthy (race (probe2 env));
             (h1, stats1) = healthyAndClosed p1Healthy (now_cb1 env) (processor1Stats st);
             (h2, stats2) = healthyAndClosed p2Healthy (now_cb2 env) (processor2Stats st)
         in ((h1, h2),
             \<lparr>launched = 2,
              settled_in = max (race_time (probe1 env)) (race_time (probe2 env))\<rparr>,
             \<lparr>healthCache = \<lparr>cache_last = now, cache_p1 = h1, cache_p2 = h2\<rparr>,
              processor1Stats = stats1, processor2Stats = stats2\<rparr>)))"

subsection \<open>Request executor (payments.ts)\<close>

type_synonym json = string

text \<open>
  How one \<^verbatim>\<open>fetch\<close> of the \<^verbatim>\<open>try\<close> block goes: it rejects (network error, or the
  abort fired by the \<^verbatim>\<open>REQUEST_TIMEOUT\<close> timer), or it resolves with a status code. The
  second component is what \<^verbatim>\<open>await resp.json()\<close> gives when the code reads the body:
  the parsed value, or \<open>None\<close> when reading or parsing the body throws.
\<close>

datatype fetch_result = Threw | Resp nat "json option"

definition resp_ok :: "nat \<Rightarrow> bool" where
  "resp_ok st = (st \<ge> 200 \<and> st < 300)"

record request_result =
  success :: bool
  response :: "json option"
  status :: "nat option"

definition failed_result :: request_result where
  "failed_result = \<lparr>success = False, response = None, status = None\<rparr>"

definition ok_result :: "json \<Rightarrow> nat \<Rightarrow> request_result" where
  "ok_result data' st = \<lparr>success = True, response = Some data', status = Some st\<rparr>"

text \<open>
  What one call of \<^verbatim>\<open>makeRequest\<close> reads: the clock of its \<^verbatim>\<open>isCircuitOpen\<close>, the
  outcome of the fetch of each attempt, and the clock of \<^verbatim>\<open>recordFailure\<close>.
\<close>

record request_env =
  check_time :: int
  fetch :: "nat \<Rightarrow> fetch_result"
  fail_time :: int

text \<open>
  A run of \<^verbatim>\<open>makeRequest\<close>: its return value, the statistics afterwards, the number of
  fetches issued and the back-off timers awaited, in order.
\<close>

record request_run =
  result :: request_result
  stats_after :: ProcessorStats
  fetches :: nat
  waits :: "int list"

text \<open>The \<^verbatim>\<open>catch\<close> block of one attempt: statistics and timers after it.\<close>

definition on_throw :: "request_env \<Rightarrow> nat \<Rightarrow> ProcessorStats \<Rightarrow> int list \<Rightarrow> ProcessorStats \<times> int list" where
  "on_throw env attempt stats ws =
     (let stats' = (if attempt = MAX_RETRIES then recordFailure (fail_time env) stats else stats);
          ws' = (if attempt < MAX_RETRIES then ws @ [1000 * (int attempt + 1)] else ws)
      in (stats', ws'))"

text \<open>
  The loop \<^verbatim>\<open>for (attempt = 0; attempt <= MAX_RETRIES; attempt++)\<close>, entered at
  \<open>attempt\<close>, with the three branches of the source in their order: \<^verbatim>\<open>resp.ok\<close>,
  \<^verbatim>\<open>resp.status >= 500\<close>, and the rest. The first and the last call \<^verbatim>\<open>recordSucces\<close>
  and then read the body inside the \<^verbatim>\<open>try\<close>; an exception there is caught like one
  thrown by \<^verbatim>\<open>fetch\<close>.
\<close>

function attempt_loop :: "request_env \<Rightarrow> nat \<Rightarrow> ProcessorStats \<Rightarrow> int list \<Rightarrow> request_run" where
  "attempt_loop env attempt stats ws =
     (if attempt \<le> MAX_RETRIES then
        (case fetch env attempt of
           Threw \<Rightarrow>
             (let (stats', ws') = on_throw env attempt stats ws
              in attempt_loop env (attempt + 1) stats' ws')
         | Resp st body \<Rightarrow>
             if resp_ok st then
               (case body of
                  Some data' \<Rightarrow>
                    \<lparr>result = ok_result data' st, stats_after = recordSucces stats,
                     fetches = attempt + 1, waits = ws\<rparr>
                | None \<Rightarrow>
                    (let (stats', ws') = on_throw env attempt (recordSucces stats) ws
                     in attempt_loop env (attempt + 1) stats' ws'))
             else if st \<ge> 500 then
               attempt_loop env (attempt + 1)
                 (if attempt = MAX_RETRIES then recordFailure (fail_time env) stats else stats) ws
             else
               (case body of
                  Some data' \<Rightarrow>
                    \<lparr>result = ok_result data' st, stats_after = recordSucces stats,
                     fetches = attempt + 1, waits = ws\<rparr>
                | None \<Rightarrow>
                    (let (stats', ws') = on_throw env attempt (recordSucces stats) ws
                     in attempt_loop env (attempt + 1) stats' ws')))
      else \<lparr>result = failed_result, stats_after = stats, fetches = attempt, waits = ws\<rparr>)"
  by pat_completeness auto
termination
  by (relation "measure (\<lambda>(env, attempt, stats, ws). MAX_RETRIES + 1 - attempt)") auto

declare attempt_loop.simps [simp del]

definition makeRequest :: "request_env \<Rightarrow> ProcessorStats \<Rightarrow> request_run" where
  "makeRequest env stats =
     (let (isOpen, stats') = isCircuitOpen (check_time env) stats in
      if isOpen
      then \<lparr>result = failed_result, stats_after = stats', fetches = 0, waits = []\<rparr>
      else attempt_loop env 0 stats' [])"

text \<open>
  The fetch outcomes on which an attempt of \<open>attempt_loop\<close> returns: a response with a
  status below 500 whose body was read.
\<close>

definition settles :: "fetch_result \<Rightarrow> bool" where
  "settles r = (case r of Threw \<Rightarrow> False | Resp st body \<Rightarrow> st < 500 \<and> body \<noteq> None)"

subsection \<open>Settlement ledger (summary.ts)\<close>

datatype processor = Default | Fallback

datatype error = QueueFull | RedisError

text \<open>The hash that \<^verbatim>\<open>redis.hset\<close> stores under one key.\<close>

record ledger_hash =
  h_processor :: processor
  h_amount :: real
  h_correlationId :: "string option"
  h_timestamp :: int

type_synonym redis = "string \<rightharpoonup> ledger_hash"

text \<open>
  An argument that a JavaScript caller leaves out is \<^verbatim>\<open>undefined\<close>: the parameter
  \<^verbatim>\<open>correlationId\<close> is a \<open>string option\<close>, \<open>None\<close> for \<^verbatim>\<open>undefined\<close>, and a template
  literal prints it as the text \<^verbatim>\<open>undefined\<close>.
\<close>

definition template :: "string option \<Rightarrow> string" where
  "template v = (case v of None \<Rightarrow> ''undefined'' | Some s \<Rightarrow> s)"

definition payment_key :: "string option \<Rightarrow> string" where
  "payment_key correlationId = ''payment:'' @ template correlationId"

text \<open>
  \<^verbatim>\<open>registerPayment\<close>: \<open>redis_up\<close> says whether the Redis commands resolve (they reject
  otherwise, and so does the call), \<open>now\<close> is the clock read for the timestamp.
\<close>

definition registerPayment ::
  "bool \<Rightarrow> int \<Rightarrow> processor \<Rightarrow> real \<Rightarrow> string option \<Rightarrow> redis \<Rightarrow> error + redis" where
  "registerPayment redis_up now processor' amount' correlationId' store =
     (if \<not> redis_up then Inl RedisError
      else
        (let key = payment_key correlationId' in
         if store key \<noteq> None then Inr store
         else Inr (store(key \<mapsto>
                \<lparr>h_processor = processor', h_amount = amount',
                 h_correlationId = correlationId', h_timestamp = now\<rparr>))))"

subsection \<open>Retry queue (queue.ts)\<close>

definition QUEUE_MAX_SIZE :: nat where
  "QUEUE_MAX_SIZE = 5000"

definition QUEUE_PROCESS_INTERVAL :: int where
  "QUEUE_PROCESS_INTERVAL = 3000"

definition QUEUE_BATCH_SIZE :: nat where
  "QUEUE_BATCH_SIZE = 10"

definition QUEUE_MAX_RETRIES :: nat where
  "QUEUE_MAX_RETRIES = 3"

definition QUEUE_INITIAL_DELAY :: int where
  "QUEUE_INITIAL_DELAY = 2000"

definition QUEUE_MAX_DELAY :: int where
  "QUEUE_MAX_DELAY = 60000"

definition QUEUE_BACKOFF_MULTIPLIER :: int where
  "QUEUE_BACKOFF_MULTIPLIER = 2"

definition QUEUE_IDLE_THRESHOLD :: int where
  "QUEUE_IDLE_THRESHOLD = 30000"

record PaymentBody =
  correlationId :: string
  amount :: real

text \<open>Field \<open>qid\<close> is the source's \<^verbatim>\<open>id\<close>.\<close>

record QueuedPayment = PaymentBody +
  qid :: string
  attempts :: nat
  lastAttempt :: int
  maxRetries :: nat
  delay :: int
  originalRequestTime :: int
  requestedAt :: string

record QueueStats =
  queued :: nat
  processed :: nat
  failed :: nat
  retries :: nat

record queue_state =
  paymentQueue :: "QueuedPayment list"
  queueProcessorRunning :: bool
  lastQueueActivity :: int
  queueStats :: QueueStats

text \<open>\<^verbatim>\<open>makeQueueRequest\<close>: one fetch, no retry, no breaker.\<close>

definition makeQueueRequest :: "fetch_result \<Rightarrow> request_result" where
  "makeQueueRequest r =
     (case r of
        Threw \<Rightarrow> failed_result
      | Resp st body \<Rightarrow>
          if resp_ok st then
            (case body of Some data' \<Rightarrow> ok_result data' st | None \<Rightarrow> failed_result)
          else if st \<ge> 500 then failed_result
          else
            (case body of Some data' \<Rightarrow> ok_result data' st | None \<Rightarrow> failed_result))"

text \<open>
  \<^verbatim>\<open>startQueueProcessor\<close> raises the flag and arms a timer; the timer's callback is
  \<open>processQueue\<close> below.
\<close>

definition startQueueProcessor :: "queue_state \<Rightarrow> queue_state" where
  "startQueueProcessor q =
     (if queueProcessorRunning q then q else q\<lparr>queueProcessorRunning := True\<rparr>)"

text \<open>
  What \<^verbatim>\<open>queuePayment\<close> reads: the clock (its reads fall in one synchronous run and
  are one value here), the ISO date string and the generated
  \<^verbatim>\<open>payment_<time>_<random>\<close> identifier.
\<close>

record enqueue_env =
  enq_now :: int
  enq_iso :: string
  enq_id :: string

text \<open>
  The \<^verbatim>\<open>throw\<close> is the first statement, before any write: the state returned with the
  error is the state the call was given.
\<close>

definition queuePayment ::
  "enqueue_env \<Rightarrow> PaymentBody \<Rightarrow> queue_state \<Rightarrow> (error + string) \<times> queue_state" where
  "queuePayment env payment q =
     (if length (paymentQueue q) \<ge> QUEUE_MAX_SIZE then (Inl QueueFull, q)
      else
        (let queuedPayment =
               \<lparr>correlationId = correlationId payment, amount = amount payment,
                qid = enq_id env, attempts = 0, lastAttempt = 0,
                maxRetries = QUEUE_MAX_RETRIES, delay = QUEUE_INITIAL_DELAY,
                originalRequestTime = enq_now env, requestedAt = enq_iso env\<rparr>;
             q1 = q\<lparr>paymentQueue := paymentQueue q @ [queuedPayment],
                    queueStats := (queueStats q)\<lparr>queued := queued (queueStats q) + 1\<rparr>,
                    lastQueueActivity := enq_now env\<rparr>
         in (Inr (qid queuedPayment), startQueueProcessor q1)))"

text \<open>
  What the processing of one queued payment reads: the clock, the outcome of the fetch
  against each processor, Redis, and (in \<open>processQueue\<close>) how the two probes of the
  queue's own health check settle and the clock that stamps the activity.
\<close>

record process_env =
  proc_now :: int
  queue_fetch :: "processor \<Rightarrow> fetch_result"
  redis_up :: bool
  redis_now :: int
  queue_probe1 :: probe_result
  queue_probe2 :: probe_result
  activity_now :: int

definition processorsToTry :: "bool \<times> bool \<Rightarrow> processor list" where
  "processorsToTry h =
     (let pushed = (if fst h then [Default] else []) @ (if snd h then [Fallback] else [])
      in if length pushed = 0 then [Default, Fallback] else pushed)"

text \<open>
  The loop over \<^verbatim>\<open>processorsToTry\<close>: the first processor whose request succeeds, if
  any, and the processors requested, in order.
\<close>

fun try_processors ::
  "process_env \<Rightarrow> processor list \<Rightarrow> processor option \<times> processor list" where
  "try_processors env [] = (None, [])"
| "try_processors env (p # ps) =
     (if success (makeQueueRequest (queue_fetch env p)) then (Some p, [p])
      else (let (winner, requested) = try_processors env ps in (winner, p # requested)))"

record process_run =
  shouldRemove :: bool
  payment_after :: QueuedPayment
  qstats_after :: QueueStats
  ledger_after :: redis
  requested :: "processor list"

text \<open>
  \<^verbatim>\<open>processQueuedPayment\<close>; \<open>healthCheck\<close> is what its \<^verbatim>\<open>healthCheck\<close> argument resolves
  to. The call of \<^verbatim>\<open>registerPayment\<close> passes two arguments, so its third parameter is
  \<^verbatim>\<open>undefined\<close>; a rejection is caught and logged.
\<close>

definition processQueuedPayment ::
  "process_env \<Rightarrow> bool \<times> bool \<Rightarrow> QueuedPayment \<Rightarrow> QueueStats \<Rightarrow> redis \<Rightarrow> process_run" where
  "processQueuedPayment env healthCheck payment qs store =
     (let now = proc_now env in
      if now - lastAttempt payment < delay payment
      then \<lparr>shouldRemove = False, payment_after = payment, qstats_after = qs,
            ledger_after = store, requested = []\<rparr>
      else
        (let payment1 = payment\<lparr>attempts := attempts payment + 1, lastAttempt := now\<rparr>;
             (winner, reqs) = try_processors env (processorsToTry healthCheck)
         in case winner of
              Some proc \<Rightarrow>
                \<lparr>shouldRemove = True, payment_after = payment1,
                 qstats_after = qs\<lparr>processed := processed qs + 1\<rparr>,
                 ledger_after =
                   (case registerPayment (redis_up env) (redis_now env) proc
                           (amount payment1) None store of
                      Inl e \<Rightarrow> store
                    | Inr store' \<Rightarrow> store'),
                 requested = reqs\<rparr>
            | None \<Rightarrow>
                if attempts payment1 \<ge> maxRetries payment1
                then \<lparr>shouldRemove = True, payment_after = payment1,
                      qstats_after = qs\<lparr>failed := failed qs + 1\<rparr>,
                      ledger_after = store, requested = reqs\<rparr>
                else \<lparr>shouldRemove = False,
                      payment_after =
                        payment1\<lparr>delay := min (delay payment1 * QUEUE_BACKOFF_MULTIPLIER)
                                              QUEUE_MAX_DELAY\<rparr>,
                      qstats_after = qs\<lparr>retries := retries qs + 1\<rparr>,
                      ledger_after = store, requested = reqs\<rparr>))"

text \<open>
  The \<^verbatim>\<open>healthCheck\<close> closure that \<open>processQueue\<close> builds: its own probes, no cache and
  no breaker; both processors count as healthy when the health module cannot be imported.
\<close>

definition queueHealthCheck :: "bool \<Rightarrow> process_env \<Rightarrow> bool \<times> bool" where
  "queueHealthCheck import_ok env =
     (if import_ok
      then (settledHealthy (queue_probe1 env), settledHealthy (queue_probe2 env))
      else (True, True))"

text \<open>
  One drain cycle reads the clock of its idle test, whether the health module imports,
  and one \<open>process_env\<close> for each position of the batch.
\<close>

record cycle_env =
  idle_now :: int
  import_ok :: bool
  item_env :: "nat \<Rightarrow> process_env"

record batch_state =
  remainingPayments :: "QueuedPayment list"
  processedInBatch :: nat
  batch_activity :: int
  batch_stats :: QueueStats
  batch_ledger :: redis

text \<open>
  The loop \<^verbatim>\<open>for (const payment of paymentsToProcess)\<close>, at position \<open>i\<close> of the batch.
  \<open>processQueuedPayment\<close> has no path that throws, so the \<^verbatim>\<open>catch\<close> of the loop body
  has no branch here.
\<close>

fun process_batch ::
  "cycle_env \<Rightarrow> nat \<Rightarrow> QueuedPayment list \<Rightarrow> batch_state \<Rightarrow> batch_state" where
  "process_batch cenv i [] b = b"
| "process_batch cenv i (payment # rest) b =
     (let env = item_env cenv i;
          run = processQueuedPayment env (queueHealthCheck (import_ok cenv) env) payment
                  (batch_stats b) (batch_ledger b);
          b1 = b\<lparr>batch_stats := qstats_after run, batch_ledger := ledger_after run\<rparr>;
          b2 = (if shouldRemove run
                then b1\<lparr>processedInBatch := processedInBatch b1 + 1,
                        batch_activity := activity_now env\<rparr>
                else b1\<lparr>remainingPayments := payment_after run # remainingPayments b1\<rparr>)
      in process_batch cenv (i + 1) rest b2)"

text \<open>What the cycle does next: the worker stops, or a timer is armed for the next cycle.\<close>

datatype schedule = Stop | Again int

definition processQueue ::
  "cycle_env \<Rightarrow> queue_state \<Rightarrow> redis \<Rightarrow> schedule \<times> queue_state \<times> redis" where
  "processQueue cenv q store =
     (if length (paymentQueue q) = 0 then
        (if idle_now cenv - lastQueueActivity q > QUEUE_IDLE_THRESHOLD
         then (Stop, q\<lparr>queueProcessorRunning := False\<rparr>, store)
         else (Again (QUEUE_PROCESS_INTERVAL * 2), q, store))
      else
        (let paymentsToProcess = take QUEUE_BATCH_SIZE (paymentQueue q);
             b = process_batch cenv 0 paymentsToProcess
                   \<lparr>remainingPayments = drop QUEUE_BATCH_SIZE (paymentQueue q),
                    processedInBatch = 0, batch_activity = lastQueueActivity q,
                    batch_stats = queueStats q, batch_ledger = store\<rparr>;
             nextInterval = (if processedInBatch b > 0 then QUEUE_PROCESS_INTERVAL div 2
                             else QUEUE_PROCESS_INTERVAL)
         in (Again nextInterval,
             q\<lparr>paymentQueue := remainingPayments b, lastQueueActivity := batch_activity b,
               queueStats := batch_stats b\<rparr>,
             batch_ledger b)))"

text \<open>
  The visits that successive cycles pay to one queued payment: \<open>processQueue\<close> puts the
  payment back while \<open>processQueuedPayment\<close> answers false and drops it at the first
  true. The result is the last run and the number of visits that issued requests (the
  attempts made).
\<close>

fun visits ::
  "(process_env \<times> (bool \<times> bool)) list \<Rightarrow> QueuedPayment \<Rightarrow> QueueStats \<Rightarrow> redis
     \<Rightarrow> process_run \<times> nat" where
  "visits [] payment qs store =
     (\<lparr>shouldRemove = False, payment_after = payment, qstats_after = qs,
       ledger_after = store, requested = []\<rparr>, 0)"
| "visits ((env, healthCheck) # later) payment qs store =
     (let run = processQueuedPayment env healthCheck payment qs store;
          made = (if length (requested run) = 0 then 0 else 1)
      in if shouldRemove run then (run, made)
         else (let (run', n) = visits later (payment_after run) (qstats_after run)
                                  (ledger_after run)
               in (run', made + n)))"

text \<open>
  The cycles themselves, one after another until the worker stops, and the visit that a
  cycle pays to the item at the head of its batch. On a queue that holds one payment the
  cycles are the visits (lemma \<open>drain_single\<close> below).
\<close>

fun drain :: "cycle_env list \<Rightarrow> queue_state \<Rightarrow> redis \<Rightarrow> queue_state \<times> redis" where
  "drain [] q store = (q, store)"
| "drain (cenv # later) q store =
     (case processQueue cenv q store of
        (Stop, q', store') \<Rightarrow> (q', store')
      | (Again interval, q', store') \<Rightarrow> drain later q' store')"

definition visit_of :: "cycle_env \<Rightarrow> process_env \<times> (bool \<times> bool)" where
  "visit_of cenv = (item_env cenv 0, queueHealthCheck (import_ok cenv) (item_env cenv 0))"

text \<open>
  A visit on which the request fails against both processors, and visits at least
  \<open>QUEUE_MAX_DELAY\<close> after the time \<open>t\<close> and after one another (so that the delay gate
  of \<open>processQueuedPayment\<close> lets each of them through).
\<close>

definition all_fail :: "process_env \<Rightarrow> bool" where
  "all_fail env =
     (\<not> success (makeQueueRequest (queue_fetch env Default))
      \<and> \<not> success (makeQueueRequest (queue_fetch env Fallback)))"

fun spaced :: "int \<Rightarrow> (process_env \<times> (bool \<times> bool)) list \<Rightarrow> bool" where
  "spaced t [] = True"
| "spaced t ((env, h) # later) =
     (proc_now env - t \<ge> QUEUE_MAX_DELAY \<and> spaced (proc_now env) later)"

subsection \<open>Routing orchestrator: the POST /payments handler (payments.ts)\<close>

record app_state =
  pay :: payments_state
  queue :: queue_state
  ledger :: redis

text \<open>
  What one request reads: the environment of its \<open>getHealth\<close>, of its two
  \<open>makeRequest\<close> calls, Redis and its clock, and the environment of \<open>queuePayment\<close>.
\<close>

record handler_env =
  health :: health_env
  request1 :: request_env
  request2 :: request_env
  ledger_up :: bool
  ledger_now :: int
  enqueue :: enqueue_env

text \<open>
  The bodies the handler sends: the downstream response, the queued acknowledgement
  (\<^verbatim>\<open>correlationId\<close>, \<^verbatim>\<open>queueId\<close>, status \<^verbatim>\<open>queued\<close>), the overload error
  (\<^verbatim>\<open>correlationId\<close>, \<^verbatim>\<open>queueSize\<close>, \<^verbatim>\<open>maxQueueSize\<close>) and the queue-full error. A handler
  either replies or rejects with an exception it did not catch.
\<close>

datatype reply_body =
  DownstreamBody "json option"
| QueuedBody string string
| OverloadedBody string nat nat
| QueueFullBody string

datatype handler_result = Reply nat reply_body | Uncaught error

text \<open>\<^verbatim>\<open>result.status || 200\<close>: a missing status and the status 0 are falsy.\<close>

definition status_or_200 :: "nat option \<Rightarrow> nat" where
  "status_or_200 s = (case s of None \<Rightarrow> 200 | Some n \<Rightarrow> if n = 0 then 200 else n)"

text \<open>
  The block \<^verbatim>\<open>await registerPayment(type, amount); return reply.code(...).send(...)\<close>.
  The call passes two arguments: the third parameter is \<^verbatim>\<open>undefined\<close>. The \<^verbatim>\<open>await\<close>
  stands in no \<^verbatim>\<open>try\<close>.
\<close>

definition settle ::
  "handler_env \<Rightarrow> processor \<Rightarrow> PaymentBody \<Rightarrow> request_result \<Rightarrow> app_state
     \<Rightarrow> handler_result \<times> app_state" where
  "settle env proc body res st =
     (case registerPayment (ledger_up env) (ledger_now env) proc (amount body) None (ledger st) of
        Inl e \<Rightarrow> (Uncaught e, st)
      | Inr store \<Rightarrow>
          (Reply (status_or_200 (status res)) (DownstreamBody (response res)),
           st\<lparr>ledger := store\<rparr>))"

text \<open>The final \<^verbatim>\<open>try { queuePayment(...) } catch\<close>.\<close>

definition enqueue_or_fail ::
  "handler_env \<Rightarrow> PaymentBody \<Rightarrow> app_state \<Rightarrow> handler_result \<times> app_state" where
  "enqueue_or_fail env body st =
     (case queuePayment (enqueue env) body (queue st) of
        (Inl e, q) \<Rightarrow> (Reply 500 (QueueFullBody (correlationId body)), st\<lparr>queue := q\<rparr>)
      | (Inr queueId, q) \<Rightarrow>
          (Reply 200 (QueuedBody (correlationId body) queueId), st\<lparr>queue := q\<rparr>))"

definition try_fallback ::
  "handler_env \<Rightarrow> bool \<Rightarrow> PaymentBody \<Rightarrow> app_state \<Rightarrow> handler_result \<times> app_state" where
  "try_fallback env p2 body st =
     (if p2 then
        (let run = makeRequest (request2 env) (processor2Stats (pay st));
             st1 = st\<lparr>pay := (pay st)\<lparr>processor2Stats := stats_after run\<rparr>\<rparr>
         in if success (result run) then settle env Fallback body (result run) st1
            else enqueue_or_fail env body st1)
      else enqueue_or_fail env body st)"

definition try_default ::
  "handler_env \<Rightarrow> bool \<Rightarrow> bool \<Rightarrow> PaymentBody \<Rightarrow> app_state \<Rightarrow> handler_result \<times> app_state" where
  "try_default env p1 p2 body st =
     (if p1 then
        (let run = makeRequest (request1 env) (processor1Stats (pay st));
             st1 = st\<lparr>pay := (pay st)\<lparr>processor1Stats := stats_after run\<rparr>\<rparr>
         in if success (result run) then settle env Default body (result run) st1
            else try_fallback env p2 body st1)
      else try_fallback env p2 body st)"

definition payments ::
  "handler_env \<Rightarrow> PaymentBody \<Rightarrow> app_state \<Rightarrow> handler_result \<times> app_state" where
  "payments env body st =
     (let ((p1, p2), probes, pay1) = getHealth (health env) (pay st);
          st1 = st\<lparr>pay := pay1\<rparr>;
          size' = length (paymentQueue (queue st1))
      in if \<not> p1 \<and> \<not> p2 \<and> size' \<ge> QUEUE_MAX_SIZE
         then (Reply 500 (OverloadedBody (correlationId body) size' QUEUE_MAX_SIZE), st1)
         else try_default env p1 p2 body st1)"

subsection \<open>Sample inputs\<close>

text \<open>Concrete requests, states and environments on which the results below are run.\<close>

definition sample_body :: PaymentBody where
  "sample_body = \<lparr>correlationId = ''a'', amount = 10\<rparr>"

definition sample_enqueue :: enqueue_env where
  "sample_enqueue =
     \<lparr>enq_now = 1000, enq_iso = ''2025-07-01T00:00:01.000Z'', enq_id = ''payment_1000_k3j9x2m1q''\<rparr>"

text \<open>The item that \<open>queuePayment sample_enqueue sample_body\<close> appends.\<close>

definition sample_item :: QueuedPayment where
  "sample_item =
     \<lparr>correlationId = ''a'', amount = 10, qid = ''payment_1000_k3j9x2m1q'', attempts = 0,
      lastAttempt = 0, maxRetries = 3, delay = 2000, originalRequestTime = 1000,
      requestedAt = ''2025-07-01T00:00:01.000Z''\<rparr>"

definition no_stats :: QueueStats where
  "no_stats = \<lparr>queued = 0, processed = 0, failed = 0, retries = 0\<rparr>"

definition empty_queue :: queue_state where
  "empty_queue =
     \<lparr>paymentQueue = [], queueProcessorRunning = False, lastQueueActivity = 0,
      queueStats = no_stats\<rparr>"

definition full_queue :: queue_state where
  "full_queue = empty_queue\<lparr>paymentQueue := replicate 5000 sample_item\<rparr>"

text \<open>A cache written at time 1000, read at 3000 (fresh) and at 7000 (expired).\<close>

definition cached_state :: payments_state where
  "cached_state =
     initialPayments\<lparr>healthCache := \<lparr>cache_last = 1000, cache_p1 = True, cache_p2 = False\<rparr>\<rparr>"

definition health_at :: "int \<Rightarrow> probe \<Rightarrow> probe \<Rightarrow> health_env" where
  "health_at t r1 r2 = \<lparr>now_h = t, probe1 = r1, probe2 = r2, now_cb1 = t + 50, now_cb2 = t + 50\<rparr>"

text \<open>
  Probes: one that answers with status \<open>c\<close> after 30 ms, one that would answer 200 but
  only after 2500 ms, and one whose request is refused. A state with an expired cache in
  which both breakers are open: the first since 25000, the second since 10000.
\<close>

definition quick :: "nat \<Rightarrow> probe" where
  "quick c = \<lparr>latency = 30, reply = Replies c\<rparr>"

definition hung :: probe where
  "hung = \<lparr>latency = 2500, reply = Replies 200\<rparr>"

definition refused :: probe where
  "refused = \<lparr>latency = 5, reply = Rejects\<rparr>"

definition tripped_state :: payments_state where
  "tripped_state =
     \<lparr>healthCache = \<lparr>cache_last = 1000, cache_p1 = True, cache_p2 = True\<rparr>,
      processor1Stats = \<lparr>failures = 20, lastFailure = 25000, circuitOpen = True\<rparr>,
      processor2Stats = \<lparr>failures = 20, lastFailure = 10000, circuitOpen = True\<rparr>\<rparr>"

text \<open>A breaker one failure short of opening, and a processor that always answers the same.\<close>

definition almost_open :: ProcessorStats where
  "almost_open = \<lparr>failures = 19, lastFailure = 5, circuitOpen = False\<rparr>"

definition always :: "fetch_result \<Rightarrow> request_env" where
  "always r = \<lparr>check_time = 1000, fetch = (\<lambda>attempt. r), fail_time = 4500\<rparr>"

text \<open>
  The environment of one visit at time \<open>t\<close>: every fetch goes as \<open>r\<close>, Redis is up or
  not. A drain cycle that gives this environment to every item, and a queue that holds
  the sample item.
\<close>

definition visit_at :: "int \<Rightarrow> fetch_result \<Rightarrow> bool \<Rightarrow> process_env" where
  "visit_at t r up =
     \<lparr>proc_now = t, queue_fetch = (\<lambda>p. r), redis_up = up, redis_now = t + 10,
      queue_probe1 = ProbeStatus 200, queue_probe2 = ProbeTimeout, activity_now = t + 20\<rparr>"

definition cycle_of :: "process_env \<Rightarrow> cycle_env" where
  "cycle_of env = \<lparr>idle_now = proc_now env, import_ok = True, item_env = (\<lambda>i. env)\<rparr>"

definition one_queued :: queue_state where
  "one_queued = empty_queue\<lparr>paymentQueue := [sample_item], queueProcessorRunning := True\<rparr>"

text \<open>Three visits on which every request fails, and one that settles while Redis is down.\<close>

definition three_failures :: "(process_env \<times> (bool \<times> bool)) list" where
  "three_failures =
     [(visit_at 61000 (Resp 503 (Some ''{}'')) True, (False, False)),
      (visit_at 122000 (Resp 503 (Some ''{}'')) True, (True, False)),
      (visit_at 183000 Threw True, (True, True))]"

definition settled_unrecorded :: process_env where
  "settled_unrecorded = visit_at 61000 (Resp 200 (Some ''{}'')) False"

text \<open>
  An application state whose health cache (written at 1000) says both processors are
  healthy, a request handled at 3000 whose default processor behaves as \<open>r1\<close> and whose
  fallback processor is unreachable, and a second payment.
\<close>

definition both_healthy :: app_state where
  "both_healthy =
     \<lparr>pay = initialPayments\<lparr>healthCache := \<lparr>cache_last = 1000, cache_p1 = True, cache_p2 = True\<rparr>\<rparr>,
      queue = empty_queue, ledger = Map.empty\<rparr>"

definition request_with :: "request_env \<Rightarrow> handler_env" where
  "request_with r1 =
     \<lparr>health = health_at 3000 hung hung, request1 = r1, request2 = always Threw,
      ledger_up = True, ledger_now = 3100, enqueue = sample_enqueue\<rparr>"

definition other_body :: PaymentBody where
  "other_body = \<lparr>correlationId = ''b'', amount = 20\<rparr>"

section \<open>Properties\<close>

subsection \<open>Circuit breaker\<close>

lemma breaker_step_inv:
  "circuitOpen s = (failures s \<ge> CIRCUIT_BREAKER_THRESHOLD)
   \<Longrightarrow> circuitOpen (breaker_step s e)
       = (failures (breaker_step s e) \<ge> CIRCUIT_BREAKER_THRESHOLD)"
  by (cases e)
     (auto simp: recordFailure_def recordSucces_def isCircuitOpen_def Let_def
                 CIRCUIT_BREAKER_THRESHOLD_def)

lemma breaker_foldl_inv:
  "circuitOpen s = (failures s \<ge> CIRCUIT_BREAKER_THRESHOLD)
   \<Longrightarrow> circuitOpen (foldl breaker_step s evs)
       = (failures (foldl breaker_step s evs) \<ge> CIRCUIT_BREAKER_THRESHOLD)"
proof (induction evs arbitrary: s)
  case Nil
  then show ?case by simp
next
  case (Cons e evs)
  from Cons.prems have "circuitOpen (breaker_step s e)
      = (failures (breaker_step s e) \<ge> CIRCUIT_BREAKER_THRESHOLD)"
    by (rule breaker_step_inv)
  then show ?case using Cons.IH by simp
qed

lemma breaker_run_inv:
  "circuitOpen (breaker_run evs) = (failures (breaker_run evs) \<ge> CIRCUIT_BREAKER_THRESHOLD)"
  unfolding breaker_run_def
  by (rule breaker_foldl_inv) (simp add: initialStats_def CIRCUIT_BREAKER_THRESHOLD_def)

lemma failures_after_failures:
  "failures (foldl breaker_step s (map Failure ts)) = failures s + length ts"
  by (induction ts arbitrary: s) (auto simp: recordFailure_def Let_def)

lemma breaker_run_append:
  "breaker_run (evs @ evs2) = foldl breaker_step (breaker_run evs) evs2"
  by (simp add: breaker_run_def)

text \<open>
  C5. In every state a breaker can reach (any history of failures, successes and checks
  from the initial statistics): it is open only if the failure count is at least
  \<open>CIRCUIT_BREAKER_THRESHOLD\<close>; \<open>recordFailure\<close> takes it from closed to open exactly
  when it brings the count to the threshold, so after a success it is open exactly when
  at least 20 failures followed with nothing in between; an open breaker asked more than
  \<open>CIRCUIT_BREAKER_TIMEOUT\<close> after the last failure answers closed and resets the count,
  and stays open until then; \<open>recordSucces\<close> sets the count to 0 and closes.
\<close>

theorem circuit_breaker_state_machine:
  "(circuitOpen (breaker_run evs) \<longrightarrow> failures (breaker_run evs) \<ge> CIRCUIT_BREAKER_THRESHOLD)
   \<and> ((\<not> circuitOpen (breaker_run evs) \<and> circuitOpen (recordFailure now (breaker_run evs)))
        = (failures (recordFailure now (breaker_run evs)) = CIRCUIT_BREAKER_THRESHOLD))
   \<and> (circuitOpen (breaker_run (evs @ Success # map Failure ts))
        = (length ts \<ge> CIRCUIT_BREAKER_THRESHOLD))
   \<and> (circuitOpen (breaker_run evs)
        \<and> now - lastFailure (breaker_run evs) > CIRCUIT_BREAKER_TIMEOUT
        \<longrightarrow> isCircuitOpen now (breaker_run evs)
              = (False, (breaker_run evs)\<lparr>circuitOpen := False, failures := 0\<rparr>))
   \<and> (circuitOpen (breaker_run evs)
        \<and> now - lastFailure (breaker_run evs) \<le> CIRCUIT_BREAKER_TIMEOUT
        \<longrightarrow> isCircuitOpen now (breaker_run evs) = (True, breaker_run evs))
   \<and> recordSucces s = s\<lparr>failures := 0, circuitOpen := False\<rparr>"
proof -
  let ?s = "breaker_run evs"
  have inv: "circuitOpen ?s = (failures ?s \<ge> CIRCUIT_BREAKER_THRESHOLD)"
    by (rule breaker_run_inv)
  have opens: "(\<not> circuitOpen ?s \<and> circuitOpen (recordFailure now ?s))
        = (failures (recordFailure now ?s) = CIRCUIT_BREAKER_THRESHOLD)"
    using inv by (auto simp: recordFailure_def Let_def CIRCUIT_BREAKER_THRESHOLD_def)
  have "breaker_run (evs @ Success # map Failure ts)
        = foldl breaker_step (recordSucces ?s) (map Failure ts)"
    by (simp add: breaker_run_append)
  moreover have "failures (foldl breaker_step (recordSucces ?s) (map Failure ts)) = length ts"
    by (simp add: failures_after_failures recordSucces_def)
  ultimately have consecutive: "circuitOpen (breaker_run (evs @ Success # map Failure ts))
        = (length ts \<ge> CIRCUIT_BREAKER_THRESHOLD)"
    using breaker_run_inv [of "evs @ Success # map Failure ts"] by simp
  have heal: "circuitOpen ?s \<and> now - lastFailure ?s > CIRCUIT_BREAKER_TIMEOUT
        \<longrightarrow> isCircuitOpen now ?s = (False, ?s\<lparr>circuitOpen := False, failures := 0\<rparr>)"
    by (simp add: isCircuitOpen_def)
  have stay: "circuitOpen ?s \<and> now - lastFailure ?s \<le> CIRCUIT_BREAKER_TIMEOUT
        \<longrightarrow> isCircuitOpen now ?s = (True, ?s)"
    by (simp add: isCircuitOpen_def)
  have succ: "recordSucces s = s\<lparr>failures := 0, circuitOpen := False\<rparr>"
    by (simp add: recordSucces_def)
  from inv opens consecutive heal stay succ show ?thesis by simp
qed

lemma twenty_failures:
  "breaker_run (replicate 20 (Failure 1000))
   = \<lparr>failures = 20, lastFailure = 1000, circuitOpen = True\<rparr>"
  by code_simp

theorem circuit_breaker_state_machine_witness:
  "circuitOpen (breaker_run (replicate 20 (Failure 1000)))
   \<and> failures (breaker_run (replicate 20 (Failure 1000))) = CIRCUIT_BREAKER_THRESHOLD
   \<and> 20000 - lastFailure (breaker_run (replicate 20 (Failure 1000))) > CIRCUIT_BREAKER_TIMEOUT
   \<and> isCircuitOpen 20000 (breaker_run (replicate 20 (Failure 1000)))
       = (False, \<lparr>failures = 0, lastFailure = 1000, circuitOpen = False\<rparr>)"
  using circuit_breaker_state_machine [of "replicate 20 (Failure 1000)" 20000]
  by (simp add: twenty_failures CIRCUIT_BREAKER_THRESHOLD_def CIRCUIT_BREAKER_TIMEOUT_def)

subsection \<open>Health tracker\<close>

lemma healthyAndClosed_fields:
  "fst (healthyAndClosed pHealthy now stats)
     = (pHealthy \<and> \<not> (circuitOpen stats \<and> now - lastFailure stats \<le> CIRCUIT_BREAKER_TIMEOUT))
   \<and> fst (healthyAndClosed pHealthy now stats)
     = (pHealthy \<and> \<not> circuitOpen (snd (healthyAndClosed pHealthy now stats)))
   \<and> fst (healthyAndClosed pHealthy now stats)
     = (pHealthy \<and> \<not> fst (isCircuitOpen now stats))"
  by (auto simp: healthyAndClosed_def isCircuitOpen_def)

lemma getHealth_probing:
  "\<not> now_h env - cache_last (healthCache st) < HEALTH_TTL
   \<Longrightarrow> getHealth env st
       = ((fst (healthyAndClosed (settledHealthy (race (probe1 env))) (now_cb1 env)
                  (processor1Stats st)),
           fst (healthyAndClosed (settledHealthy (race (probe2 env))) (now_cb2 env)
                  (processor2Stats st))),
          \<lparr>launched = 2, settled_in = max (race_time (probe1 env)) (race_time (probe2 env))\<rparr>,
          \<lparr>healthCache =
             \<lparr>cache_last = now_h env,
              cache_p1 = fst (healthyAndClosed (settledHealthy (race (probe1 env))) (now_cb1 env)
                  (processor1Stats st)),
              cache_p2 = fst (healthyAndClosed (settledHealthy (race (probe2 env))) (now_cb2 env)
                  (processor2Stats st))\<rparr>,
           processor1Stats = snd (healthyAndClosed (settledHealthy (race (probe1 env)))
                  (now_cb1 env) (processor1Stats st)),
           processor2Stats = snd (healthyAndClosed (settledHealthy (race (probe2 env)))
                  (now_cb2 env) (processor2Stats st))\<rparr>)"
  by (simp add: getHealth_def Let_def case_prod_beta)

lemma race_healthy:
  "settledHealthy (race p)
   = (latency p < PROBE_TIMEOUT \<and> (\<exists>c. reply p = Replies c \<and> 200 \<le> c \<and> c < 300))"
  by (cases "reply p") (auto simp: race_def settledHealthy_def checkHealth_def)

text \<open>
  C9. While the cache is younger than \<open>HEALTH_TTL\<close>, \<open>getHealth\<close> returns the cached pair,
  launches no probe and leaves the state as it was. Otherwise it launches both probes,
  which run side by side (the wait ends when the later race settles, after at most
  \<open>PROBE_TIMEOUT\<close>), and the health it reports (and caches, stamped with the clock at
  entry) for each processor is: the probe won its race with a 2xx status and the breaker
  is not open. In the stored fields, "open" is: the flag \<open>circuitOpen\<close> is set and no more
  than \<open>CIRCUIT_BREAKER_TIMEOUT\<close> has passed since \<open>lastFailure\<close>; it is also the flag as it
  stands after the call. A probe that rejects, or needs \<open>PROBE_TIMEOUT\<close> or longer, counts
  as unhealthy whatever it would have answered.
\<close>

theorem getHealth_cache_and_probe:
  "(now_h env - cache_last (healthCache st) < HEALTH_TTL
      \<longrightarrow> getHealth env st
            = ((cache_p1 (healthCache st), cache_p2 (healthCache st)),
               \<lparr>launched = 0, settled_in = 0\<rparr>, st))
   \<and> (\<not> now_h env - cache_last (healthCache st) < HEALTH_TTL
      \<longrightarrow> fst (fst (getHealth env st))
            = (settledHealthy (race (probe1 env))
               \<and> \<not> (circuitOpen (processor1Stats st)
                    \<and> now_cb1 env - lastFailure (processor1Stats st) \<le> CIRCUIT_BREAKER_TIMEOUT))
          \<and> snd (fst (getHealth env st))
            = (settledHealthy (race (probe2 env))
               \<and> \<not> (circuitOpen (processor2Stats st)
                    \<and> now_cb2 env - lastFailure (processor2Stats st) \<le> CIRCUIT_BREAKER_TIMEOUT))
          \<and> fst (fst (getHealth env st))
            = (settledHealthy (race (probe1 env))
               \<and> \<not> circuitOpen (processor1Stats (snd (snd (getHealth env st)))))
          \<and> snd (fst (getHealth env st))
            = (settledHealthy (race (probe2 env))
               \<and> \<not> circuitOpen (processor2Stats (snd (snd (getHealth env st)))))
          \<and> fst (getHealth env st)
            = (settledHealthy (race (probe1 env))
                 \<and> \<not> fst (isCircuitOpen (now_cb1 env) (processor1Stats st)),
               settledHealthy (race (probe2 env))
                 \<and> \<not> fst (isCircuitOpen (now_cb2 env) (processor2Stats st)))
          \<and> launched (fst (snd (getHealth env st))) = 2
          \<and> settled_in (fst (snd (getHealth env st)))
              = max (race_time (probe1 env)) (race_time (probe2 env))
          \<and> settled_in (fst (snd (getHealth env st))) \<le> PROBE_TIMEOUT
          \<and> healthCache (snd (snd (getHealth env st)))
              = \<lparr>cache_last = now_h env,
                 cache_p1 = fst (fst (getHealth env st)),
                 cache_p2 = snd (fst (getHealth env st))\<rparr>)
   \<and> settledHealthy (race p)
       = (latency p < PROBE_TIMEOUT \<and> (\<exists>c. reply p = Replies c \<and> 200 \<le> c \<and> c < 300))
   \<and> (latency p \<ge> PROBE_TIMEOUT \<longrightarrow> \<not> settledHealthy (race p))
   \<and> (reply p = Rejects \<longrightarrow> \<not> settledHealthy (race p))"
proof -
  have cached: "now_h env - cache_last (healthCache st) < HEALTH_TTL
      \<longrightarrow> getHealth env st
            = ((cache_p1 (healthCache st), cache_p2 (healthCache st)),
               \<lparr>launched = 0, settled_in = 0\<rparr>, st)"
    by (simp add: getHealth_def)
  have probed: "\<not> now_h env - cache_last (healthCache st) < HEALTH_TTL
      \<longrightarrow> fst (fst (getHealth env st))
            = (settledHealthy (race (probe1 env))
               \<and> \<not> (circuitOpen (processor1Stats st)
                    \<and> now_cb1 env - lastFailure (processor1Stats st) \<le> CIRCUIT_BREAKER_TIMEOUT))
          \<and> snd (fst (getHealth env st))
            = (settledHealthy (race (probe2 env))
               \<and> \<not> (circuitOpen (processor2Stats st)
                    \<and> now_cb2 env - lastFailure (processor2Stats st) \<le> CIRCUIT_BREAKER_TIMEOUT))
          \<and> fst (fst (getHealth env st))
            = (settledHealthy (race (probe1 env))
               \<and> \<not> circuitOpen (processor1Stats (snd (snd (getHealth env st)))))
          \<and> snd (fst (getHealth env st))
            = (settledHealthy (race (probe2 env))
               \<and> \<not> circuitOpen (processor2Stats (snd (snd (getHealth env st)))))
          \<and> fst (getHealth env st)
            = (settledHealthy (race (probe1 env))
                 \<and> \<not> fst (isCircuitOpen (now_cb1 env) (processor1Stats st)),
               settledHealthy (race (probe2 env))
                 \<and> \<not> fst (isCircuitOpen (now_cb2 env) (processor2Stats st)))
          \<and> launched (fst (snd (getHealth env st))) = 2
          \<and> settled_in (fst (snd (getHealth env st)))
              = max (race_time (probe1 env)) (race_time (probe2 env))
          \<and> settled_in (fst (snd (getHealth env st))) \<le> PROBE_TIMEOUT
          \<and> healthCache (snd (snd (getHealth env st)))
              = \<lparr>cache_last = now_h env,
                 cache_p1 = fst (fst (getHealth env st)),
                 cache_p2 = snd (fst (getHealth env st))\<rparr>"
  proof
    assume stale: "\<not> now_h env - cache_last (healthCache st) < HEALTH_TTL"
    show "fst (fst (getHealth env st))
            = (settledHealthy (race (probe1 env))
               \<and> \<not> (circuitOpen (processor1Stats st)
                    \<and> now_cb1 env - lastFailure (processor1Stats st) \<le> CIRCUIT_BREAKER_TIMEOUT))
          \<and> snd (fst (getHealth env st))
            = (settledHealthy (race (probe2 env))
               \<and> \<not> (circuitOpen (processor2Stats st)
                    \<and> now_cb2 env - lastFailure (processor2Stats st) \<le> CIRCUIT_BREAKER_TIMEOUT))
          \<and> fst (fst (getHealth env st))
            = (settledHealthy (race (probe1 env))
               \<and> \<not> circuitOpen (processor1Stats (snd (snd (getHealth env st)))))
          \<and> snd (fst (getHealth env st))
            = (settledHealthy (race (probe2 env))
               \<and> \<not> circuitOpen (processor2Stats (snd (snd (getHealth env st)))))
          \<and> fst (getHealth env st)
            = (settledHealthy (race (probe1 env))
                 \<and> \<not> fst (isCircuitOpen (now_cb1 env) (processor1Stats st)),
               settledHealthy (race (probe2 env))
                 \<and> \<not> fst (isCircuitOpen (now_cb2 env) (processor2Stats st)))
          \<and> launched (fst (snd (getHealth env st))) = 2
          \<and> settled_in (fst (snd (getHealth env st)))
              = max (race_time (probe1 env)) (race_time (probe2 env))
          \<and> settled_in (fst (snd (getHealth env st))) \<le> PROBE_TIMEOUT
          \<and> healthCache (snd (snd (getHealth env st)))
              = \<lparr>cache_last = now_h env,
                 cache_p1 = fst (fst (getHealth env st)),
                 cache_p2 = snd (fst (getHealth env st))\<rparr>"
      unfolding getHealth_probing [OF stale]
      by (auto simp: healthyAndClosed_def isCircuitOpen_def race_time_def)
  qed
  have lost: "latency p \<ge> PROBE_TIMEOUT \<longrightarrow> \<not> settledHealthy (race p)"
    and rejected: "reply p = Rejects \<longrightarrow> \<not> settledHealthy (race p)"
    by (simp_all add: race_healthy)
  from cached probed race_healthy [of p] lost rejected show ?thesis by blast
qed

theorem getHealth_cache_and_probe_witness:
  "now_h (health_at 3000 hung (quick 200)) - cache_last (healthCache cached_state) < HEALTH_TTL
   \<and> getHealth (health_at 3000 hung (quick 200)) cached_state
       = ((True, False), \<lparr>launched = 0, settled_in = 0\<rparr>, cached_state)
   \<and> \<not> now_h (health_at 30000 (quick 200) (quick 200)) - cache_last (healthCache tripped_state)
         < HEALTH_TTL
   \<and> settledHealthy (race (quick 200))
   \<and> circuitOpen (processor1Stats tripped_state) \<and> circuitOpen (processor2Stats tripped_state)
   \<and> fst (getHealth (health_at 30000 (quick 200) (quick 200)) tripped_state) = (False, True)
   \<and> processor2Stats (snd (snd (getHealth (health_at 30000 (quick 200) (quick 200)) tripped_state)))
       = \<lparr>failures = 0, lastFailure = 10000, circuitOpen = False\<rparr>
   \<and> fst (getHealth (health_at 7000 hung (quick 204)) cached_state) = (False, True)
   \<and> fst (getHealth (health_at 7000 (quick 503) refused) cached_state) = (False, False)
   \<and> fst (snd (getHealth (health_at 7000 hung (quick 204)) cached_state))
       = \<lparr>launched = 2, settled_in = 2000\<rparr>
   \<and> healthCache (snd (snd (getHealth (health_at 7000 hung (quick 204)) cached_state)))
       = \<lparr>cache_last = 7000, cache_p1 = False, cache_p2 = True\<rparr>"
  using getHealth_cache_and_probe [of "health_at 3000 hung (quick 200)" cached_state "quick 200"]
    getHealth_cache_and_probe [of "health_at 30000 (quick 200) (quick 200)" tripped_state hung]
    getHealth_cache_and_probe [of "health_at 7000 hung (quick 204)" cached_state refused]
    getHealth_cache_and_probe [of "health_at 7000 (quick 503) refused" cached_state hung]
  by (simp add: health_at_def cached_state_def tripped_state_def initialPayments_def
        initialStats_def HEALTH_TTL_def isCircuitOpen_def CIRCUIT_BREAKER_TIMEOUT_def
        PROBE_TIMEOUT_def quick_def hung_def refused_def race_def race_time_def
        settledHealthy_def checkHealth_def getHealth_probing healthyAndClosed_def)

subsection \<open>Retry queue: capacity\<close>

text \<open>
  C8. When the queue holds \<open>QUEUE_MAX_SIZE\<close> items (or more), \<open>queuePayment\<close> fails with
  the capacity error and the queue state (items, counters, running flag, activity stamp)
  is the one it was given. Below capacity it does not fail: it returns the new id and the
  queue is one item longer.
\<close>

theorem queuePayment_capacity:
  "(length (paymentQueue q) \<ge> QUEUE_MAX_SIZE
      \<longrightarrow> queuePayment env payment q = (Inl QueueFull, q))
   \<and> (length (paymentQueue q) < QUEUE_MAX_SIZE
      \<longrightarrow> fst (queuePayment env payment q) = Inr (enq_id env)
          \<and> length (paymentQueue (snd (queuePayment env payment q)))
              = length (paymentQueue q) + 1)"
  by (simp add: queuePayment_def Let_def startQueueProcessor_def)

theorem queuePayment_capacity_witness:
  "length (paymentQueue full_queue) = QUEUE_MAX_SIZE
   \<and> queuePayment sample_enqueue sample_body full_queue = (Inl QueueFull, full_queue)
   \<and> length (paymentQueue empty_queue) < QUEUE_MAX_SIZE
   \<and> fst (queuePayment sample_enqueue sample_body empty_queue) = Inr ''payment_1000_k3j9x2m1q''
   \<and> length (paymentQueue (snd (queuePayment sample_enqueue sample_body empty_queue))) = 1"
  using queuePayment_capacity [of full_queue sample_enqueue sample_body]
    queuePayment_capacity [of empty_queue sample_enqueue sample_body]
  by (simp add: full_queue_def empty_queue_def QUEUE_MAX_SIZE_def sample_enqueue_def)

subsection \<open>Request executor: responses below 500\<close>

lemma recordSucces_idem: "recordSucces (recordSucces s) = recordSucces s"
  by (simp add: recordSucces_def)

lemma resp_ok_below_500: "resp_ok st \<Longrightarrow> st < 500"
  by (simp add: resp_ok_def)

lemma attempt_loop_exhausted:
  "attempt_loop env 3 stats ws
   = \<lparr>result = failed_result, stats_after = stats, fetches = 3, waits = ws\<rparr>"
  by (subst attempt_loop.simps) (simp add: MAX_RETRIES_def)

lemma attempt_loop_returns:
  assumes "fetch env k = Resp st (Some body)" and "st < 500" and "k \<le> MAX_RETRIES"
    and "a \<le> k"
    and "\<forall>j. a \<le> j \<and> j < k \<longrightarrow> \<not> settles (fetch env j)"
  shows "result (attempt_loop env a stats ws) = ok_result body st
       \<and> fetches (attempt_loop env a stats ws) = k + 1
       \<and> stats_after (attempt_loop env a stats ws) = recordSucces stats"
  using assms(4,5)
proof (induction "k - a" arbitrary: a stats ws)
  case 0
  then have "a = k" by simp
  then show ?case using assms(1-3)
    by (subst (1 2 3) attempt_loop.simps) simp
next
  case (Suc d)
  then have lt: "a < k" and d: "d = k - (a + 1)" and le: "a + 1 \<le> k" by simp_all
  have rest: "\<forall>j. a + 1 \<le> j \<and> j < k \<longrightarrow> \<not> settles (fetch env j)"
    using Suc.prems(2) by auto
  have here: "\<not> settles (fetch env a)"
    using Suc.prems(2) lt by simp
  have notlast: "a \<noteq> MAX_RETRIES" "a \<le> MAX_RETRIES" using lt assms(3) by simp_all
  note IH = Suc.hyps(1) [OF d le rest]
  show ?case
  proof (cases "fetch env a")
    case Threw
    then show ?thesis using notlast IH [of stats]
      by (subst (1 2 3) attempt_loop.simps) (simp add: on_throw_def Let_def)
  next
    case (Resp s b)
    show ?thesis
    proof (cases b)
      case None
      then show ?thesis using Resp notlast IH [of stats] IH [of "recordSucces stats"]
        by (subst (1 2 3) attempt_loop.simps)
           (simp add: on_throw_def Let_def recordSucces_idem)
    next
      case (Some data')
      then have "s \<ge> 500" using here Resp by (simp add: settles_def)
      then have "\<not> resp_ok s" using resp_ok_below_500 [of s] by auto
      then show ?thesis using Resp Some notlast IH [of stats] \<open>s \<ge> 500\<close>
        by (subst (1 2 3) attempt_loop.simps) simp
    qed
  qed
qed

lemma not_open_recordSucces:
  "\<not> fst (isCircuitOpen now stats)
   \<Longrightarrow> recordSucces (snd (isCircuitOpen now stats)) = recordSucces stats"
  by (auto simp: isCircuitOpen_def recordSucces_def split: if_splits)

lemma makeRequest_closed:
  "\<not> fst (isCircuitOpen (check_time env) stats)
   \<Longrightarrow> makeRequest env stats = attempt_loop env 0 (snd (isCircuitOpen (check_time env) stats)) []"
  by (cases "isCircuitOpen (check_time env) stats") (simp add: makeRequest_def)

lemma makeRequest_returns:
  assumes "\<not> fst (isCircuitOpen (check_time env) stats)"
    and "k \<le> MAX_RETRIES"
    and "\<forall>j<k. \<not> settles (fetch env j)"
    and "fetch env k = Resp st (Some body)" and "st < 500"
  shows "result (makeRequest env stats) = ok_result body st
       \<and> fetches (makeRequest env stats) = k + 1
       \<and> stats_after (makeRequest env stats) = recordSucces stats"
proof -
  have "\<forall>j. 0 \<le> j \<and> j < k \<longrightarrow> \<not> settles (fetch env j)" using assms(3) by simp
  from attempt_loop_returns [OF assms(4) assms(5) assms(2) _ this,
      of "snd (isCircuitOpen (check_time env) stats)" "[]"]
  show ?thesis
    using makeRequest_closed [OF assms(1)] not_open_recordSucces [OF assms(1)] by simp
qed

lemma attempt_loop_forgets:
  assumes "fetch env k = Resp st body" and "st < 500" and "k \<le> MAX_RETRIES"
  shows "attempt_loop env k stats ws = attempt_loop env k (recordSucces stats) ws"
proof -
  have cond: "\<not> st \<ge> 500" using assms(2) by simp
  show ?thesis
    using assms(1,3) cond
    by (subst (1 2) attempt_loop.simps) (simp add: recordSucces_idem split: option.splits)
qed

lemma attempt_loop_clean:
  assumes "failures stats = 0" and "\<not> circuitOpen stats"
  shows "failures (stats_after (attempt_loop env a stats ws)) \<le> 1
       \<and> \<not> circuitOpen (stats_after (attempt_loop env a stats ws))"
  using assms
proof (induction "MAX_RETRIES + 1 - a" arbitrary: a stats ws)
  case 0
  then have "\<not> a \<le> MAX_RETRIES" by simp
  then show ?case using 0 by (subst (1 2) attempt_loop.simps) simp
next
  case (Suc d)
  then have le: "a \<le> MAX_RETRIES" and d: "d = MAX_RETRIES + 1 - (a + 1)" by simp_all
  have clean: "failures (recordSucces s) = 0" "\<not> circuitOpen (recordSucces s)" for s
    by (simp_all add: recordSucces_def)
  have rf: "failures (recordFailure t stats) \<le> 1 \<and> \<not> circuitOpen (recordFailure t stats)" for t
    using Suc.prems by (simp add: recordFailure_def Let_def CIRCUIT_BREAKER_THRESHOLD_def)
  have rf': "failures (recordFailure t (recordSucces stats)) \<le> 1
      \<and> \<not> circuitOpen (recordFailure t (recordSucces stats))" for t
    by (simp add: recordFailure_def recordSucces_def Let_def CIRCUIT_BREAKER_THRESHOLD_def)
  note IH = Suc.hyps(1) [OF d]
  show ?case
  proof (cases "a = MAX_RETRIES")
    case True
    have finished: "attempt_loop env (Suc MAX_RETRIES) s w
        = \<lparr>result = failed_result, stats_after = s, fetches = Suc MAX_RETRIES, waits = w\<rparr>"
      for s w
      by (subst attempt_loop.simps) simp
    show ?thesis using True rf rf' clean
      by (subst (1 2) attempt_loop.simps)
         (simp add: finished on_throw_def Let_def split: fetch_result.splits option.splits)
  next
    case False
    then show ?thesis using le IH [OF Suc.prems] IH [OF clean] clean
      by (subst (1 2) attempt_loop.simps)
         (simp add: on_throw_def Let_def split: fetch_result.splits option.splits)
  qed
qed

lemma attempt_loop_erased:
  assumes "fetch env k = Resp st body" and "st < 500" and "k \<le> MAX_RETRIES"
    and "a \<le> k"
    and "\<forall>j. a \<le> j \<and> j < k \<longrightarrow> \<not> settles (fetch env j)"
  shows "failures (stats_after (attempt_loop env a stats ws)) \<le> 1
       \<and> \<not> circuitOpen (stats_after (attempt_loop env a stats ws))"
  using assms(4,5)
proof (induction "k - a" arbitrary: a stats ws)
  case 0
  then have "a = k" by simp
  moreover have "failures (recordSucces stats) = 0" "\<not> circuitOpen (recordSucces stats)"
    by (simp_all add: recordSucces_def)
  ultimately show ?case
    using attempt_loop_forgets [OF assms(1-3), of stats ws]
      attempt_loop_clean [of "recordSucces stats" env k ws] by simp
next
  case (Suc d)
  then have lt: "a < k" and d: "d = k - (a + 1)" and le: "a + 1 \<le> k" by simp_all
  have rest: "\<forall>j. a + 1 \<le> j \<and> j < k \<longrightarrow> \<not> settles (fetch env j)"
    using Suc.prems(2) by auto
  have here: "\<not> settles (fetch env a)"
    using Suc.prems(2) lt by simp
  have notlast: "a \<noteq> MAX_RETRIES" "a \<le> MAX_RETRIES" using lt assms(3) by simp_all
  note IH = Suc.hyps(1) [OF d le rest]
  show ?case
  proof (cases "fetch env a")
    case Threw
    then show ?thesis using notlast IH [of stats]
      by (subst (1 2) attempt_loop.simps) (simp add: on_throw_def Let_def)
  next
    case (Resp s b)
    show ?thesis
    proof (cases b)
      case None
      then show ?thesis using Resp notlast IH [of stats] IH [of "recordSucces stats"]
        by (subst (1 2) attempt_loop.simps) (simp add: on_throw_def Let_def)
    next
      case (Some data')
      then have "s \<ge> 500" using here Resp by (simp add: settles_def)
      then have "\<not> resp_ok s" using resp_ok_below_500 [of s] by auto
      then show ?thesis using Resp Some notlast IH [of stats] \<open>s \<ge> 500\<close>
        by (subst (1 2) attempt_loop.simps) simp
    qed
  qed
qed

text \<open>
  A 4xx response at attempt \<open>k\<close> (whatever its body) makes the executor call
  \<open>recordSucces\<close> first: from there the run goes on as from statistics with count 0 and
  closed circuit, so at the end of \<open>makeRequest\<close> nothing accumulated before is left
  (count at most 1, circuit closed). When the body of the 4xx response is read, the call
  returns at once and the statistics are the given ones with count 0 and closed circuit.
\<close>

lemma client_error_resets_breaker:
  assumes "400 \<le> st" and "st < 500"
    and "\<not> fst (isCircuitOpen (check_time env) stats)"
    and "k \<le> MAX_RETRIES" and "\<forall>j<k. \<not> settles (fetch env j)"
    and "fetch env k = Resp st body"
  shows "attempt_loop env k s ws = attempt_loop env k (recordSucces s) ws
       \<and> failures (recordSucces s) = 0 \<and> \<not> circuitOpen (recordSucces s)
       \<and> failures (stats_after (makeRequest env stats)) \<le> 1
       \<and> \<not> circuitOpen (stats_after (makeRequest env stats))
       \<and> (body \<noteq> None
            \<longrightarrow> stats_after (makeRequest env stats) = stats\<lparr>failures := 0, circuitOpen := False\<rparr>)"
proof -
  have forget: "attempt_loop env k s ws = attempt_loop env k (recordSucces s) ws" for s ws
    using attempt_loop_forgets [OF assms(6) assms(2) assms(4)] .
  have reset: "failures (recordSucces s) = 0" "\<not> circuitOpen (recordSucces s)" for s
    by (simp_all add: recordSucces_def)
  have "\<forall>j. 0 \<le> j \<and> j < k \<longrightarrow> \<not> settles (fetch env j)" using assms(5) by simp
  from attempt_loop_erased [OF assms(6) assms(2) assms(4) _ this,
      of "snd (isCircuitOpen (check_time env) stats)" "[]"]
  have bound: "failures (stats_after (makeRequest env stats)) \<le> 1
       \<and> \<not> circuitOpen (stats_after (makeRequest env stats))"
    using makeRequest_closed [OF assms(3)] by simp
  have read: "body \<noteq> None
      \<longrightarrow> stats_after (makeRequest env stats) = stats\<lparr>failures := 0, circuitOpen := False\<rparr>"
  proof
    assume "body \<noteq> None"
    then obtain b where "fetch env k = Resp st (Some b)" using assms(6) by auto
    from makeRequest_returns [OF assms(3) assms(4) assms(5) this assms(2)]
    show "stats_after (makeRequest env stats) = stats\<lparr>failures := 0, circuitOpen := False\<rparr>"
      by (simp add: recordSucces_def)
  qed
  from forget reset bound read show ?thesis by simp
qed

text \<open>With 19 failures accumulated and a 422 whose body is read, the count ends at 0.\<close>

lemma client_error_resets_breaker_example:
  "(400::nat) \<le> 422 \<and> (422::nat) < 500
   \<and> \<not> fst (isCircuitOpen (check_time (always (Resp 422 (Some ''{}'')))) almost_open)
   \<and> fetch (always (Resp 422 (Some ''{}''))) 0 = Resp 422 (Some ''{}'')
   \<and> failures almost_open = 19
   \<and> stats_after (makeRequest (always (Resp 422 (Some ''{}''))) almost_open)
       = \<lparr>failures = 0, lastFailure = 5, circuitOpen = False\<rparr>"
  using client_error_resets_breaker [of 422 "always (Resp 422 (Some ''{}''))" almost_open 0
      "Some ''{}''" almost_open "[]"]
  by (simp add: always_def almost_open_def isCircuitOpen_def)

text \<open>
  C10. A processor that answers 404 with a body that \<^verbatim>\<open>resp.json()\<close> cannot read, met
  with 19 failures accumulated and the circuit closed. Each attempt calls
  \<open>recordSucces\<close>, but the exception of the body read lands in the \<^verbatim>\<open>catch\<close> block,
  and at the last attempt that block records a failure: after the call the count is 1.
  (The claim says that after any 4xx response the count is 0.)
\<close>

theorem unreadable_client_error_leaves_a_failure:
  "failures almost_open = 19 \<and> \<not> circuitOpen almost_open
   \<and> makeRequest (always (Resp 404 None)) almost_open
       = \<lparr>result = failed_result,
          stats_after = \<lparr>failures = 1, lastFailure = 4500, circuitOpen = False\<rparr>,
          fetches = 3, waits = [1000, 2000]\<rparr>"
  by (simp add: makeRequest_def always_def almost_open_def isCircuitOpen_def attempt_loop.simps
        MAX_RETRIES_def on_throw_def recordFailure_def recordSucces_def Let_def resp_ok_def
        CIRCUIT_BREAKER_THRESHOLD_def)

subsection \<open>Request executor: retries\<close>

text \<open>
  A run whose three attempts all throw or answer 5xx: three fetches, one failure recorded
  (after the last), and a timer is awaited only after an attempt that threw.
\<close>

lemma retryable_run:
  assumes "\<not> fst (isCircuitOpen (check_time env) stats)"
    and "\<forall>j\<le>MAX_RETRIES. fetch env j = Threw \<or> (\<exists>st b. fetch env j = Resp st b \<and> st \<ge> 500)"
  shows "makeRequest env stats
         = \<lparr>result = failed_result,
            stats_after = recordFailure (fail_time env) (snd (isCircuitOpen (check_time env) stats)),
            fetches = 3,
            waits = map (\<lambda>j. 1000 * (int j + 1)) (filter (\<lambda>j. fetch env j = Threw) [0, 1])\<rparr>"
proof -
  have r: "fetch env j = Threw \<or> (\<exists>st b. fetch env j = Resp st b \<and> st \<ge> 500 \<and> \<not> resp_ok st)"
    if "j \<le> 2" for j
    using assms(2) that resp_ok_below_500 by (fastforce simp: MAX_RETRIES_def)
  have two: "attempt_loop env 2 s w
      = \<lparr>result = failed_result, stats_after = recordFailure (fail_time env) s,
         fetches = 3, waits = w\<rparr>" for s w
    using r [of 2]
    by (subst attempt_loop.simps)
       (auto simp: MAX_RETRIES_def on_throw_def attempt_loop_exhausted)
  have two': "attempt_loop env (Suc (Suc 0)) s w
      = \<lparr>result = failed_result, stats_after = recordFailure (fail_time env) s,
         fetches = 3, waits = w\<rparr>" for s w
    using two [of s w] by (simp add: numeral_2_eq_2)
  have one: "attempt_loop env (Suc 0) s w
      = \<lparr>result = failed_result, stats_after = recordFailure (fail_time env) s,
         fetches = 3, waits = w @ (if fetch env (Suc 0) = Threw then [2000] else [])\<rparr>" for s w
    using r [of 1]
    by (subst attempt_loop.simps) (auto simp: MAX_RETRIES_def on_throw_def two')
  have zero: "attempt_loop env 0 s []
      = \<lparr>result = failed_result, stats_after = recordFailure (fail_time env) s,
         fetches = 3,
         waits = (if fetch env 0 = Threw then [1000] else [])
                 @ (if fetch env 1 = Threw then [2000] else [])\<rparr>" for s
    using r [of 0]
    by (subst attempt_loop.simps) (auto simp: MAX_RETRIES_def on_throw_def one)
  show ?thesis
    using makeRequest_closed [OF assms(1)] by (simp add: zero)
qed

lemma fetches_bounded: "fetches (makeRequest env stats) \<le> MAX_RETRIES + 1"
proof -
  have loop: "a \<le> MAX_RETRIES + 1 \<Longrightarrow> fetches (attempt_loop env a s w) \<le> MAX_RETRIES + 1"
    for a s w
  proof (induction "MAX_RETRIES + 1 - a" arbitrary: a s w)
    case 0
    then show ?case by (subst attempt_loop.simps) simp
  next
    case (Suc d)
    then have "d = MAX_RETRIES + 1 - (a + 1)" "a + 1 \<le> MAX_RETRIES + 1" by simp_all
    note IH = Suc.hyps(1) [OF this]
    show ?case
    proof (cases "a \<le> MAX_RETRIES")
      case True
      then show ?thesis using IH
        by (subst attempt_loop.simps)
           (auto simp: on_throw_def Let_def split: fetch_result.splits option.splits)
    next
      case False
      then show ?thesis using Suc.prems by (subst attempt_loop.simps) simp
    qed
  qed
  show ?thesis
    using loop [of 0] by (auto simp: makeRequest_def split: prod.splits)
qed

text \<open>
  C6. A processor that answers 503 to every attempt: the three attempts are made, one
  breaker failure is recorded after the last, and no back-off timer is awaited between
  them (the claim asks for an increasing delay between the attempts); the \<^verbatim>\<open>continue\<close> of
  the 5xx branch skips the wait that stands in the \<^verbatim>\<open>catch\<close> block.
\<close>

theorem server_errors_retried_without_backoff:
  "makeRequest (always (Resp 503 (Some ''{}''))) initialStats
   = \<lparr>result = failed_result,
      stats_after = \<lparr>failures = 1, lastFailure = 4500, circuitOpen = False\<rparr>,
      fetches = 3, waits = []\<rparr>"
  by (simp add: makeRequest_def always_def initialStats_def isCircuitOpen_def attempt_loop.simps
        MAX_RETRIES_def resp_ok_def recordFailure_def Let_def CIRCUIT_BREAKER_THRESHOLD_def)

text \<open>The same run when every fetch throws: the timers 1000 ms and 2000 ms are awaited.\<close>

lemma network_errors_back_off:
  "makeRequest (always Threw) initialStats
   = \<lparr>result = failed_result,
      stats_after = \<lparr>failures = 1, lastFailure = 4500, circuitOpen = False\<rparr>,
      fetches = 3, waits = [1000, 2000]\<rparr>"
  by (simp add: makeRequest_def always_def initialStats_def isCircuitOpen_def attempt_loop.simps
        MAX_RETRIES_def on_throw_def recordFailure_def Let_def CIRCUIT_BREAKER_THRESHOLD_def)

text \<open>
  A 4xx response whose body is read ends the run with success on both request paths,
  after \<open>recordSucces\<close> and without a further fetch.
\<close>

lemma readable_client_error_settles:
  assumes "400 \<le> st" and "st < 500"
    and "\<not> fst (isCircuitOpen (check_time env) stats)"
    and "k \<le> MAX_RETRIES" and "\<forall>j<k. \<not> settles (fetch env j)"
    and "fetch env k = Resp st (Some body)"
  shows "result (makeRequest env stats) = ok_result body st
       \<and> success (result (makeRequest env stats))
       \<and> fetches (makeRequest env stats) = k + 1
       \<and> stats_after (makeRequest env stats) = recordSucces stats
       \<and> makeQueueRequest (Resp st (Some body)) = ok_result body st"
  using makeRequest_returns [OF assms(3) assms(4) assms(5) assms(6) assms(2)] assms(1,2)
  by (simp add: ok_result_def makeQueueRequest_def resp_ok_def)

text \<open>
  C7. A processor that answers 404 with a body that \<^verbatim>\<open>resp.json()\<close> cannot read: the
  exception lands in the \<^verbatim>\<open>catch\<close> block, the executor makes all three attempts with
  back-off, records a breaker failure after the last and returns failure; the queue's
  request returns failure as well (the claim asks for success at once, no retry and no
  breaker failure on every 4xx response).
\<close>

theorem unreadable_client_error_is_retried:
  "makeRequest (always (Resp 404 None)) initialStats
   = \<lparr>result = failed_result,
      stats_after = \<lparr>failures = 1, lastFailure = 4500, circuitOpen = False\<rparr>,
      fetches = 3, waits = [1000, 2000]\<rparr>
   \<and> makeQueueRequest (Resp 404 None) = failed_result"
  by (simp add: makeRequest_def always_def initialStats_def isCircuitOpen_def attempt_loop.simps
        MAX_RETRIES_def on_throw_def recordFailure_def recordSucces_def Let_def resp_ok_def
        CIRCUIT_BREAKER_THRESHOLD_def makeQueueRequest_def)

subsection \<open>Retry queue: attempts and removal\<close>

lemma processorsToTry_nonempty: "processorsToTry h \<noteq> []"
  by (simp add: processorsToTry_def Let_def)

lemma all_fail_any: "all_fail env \<Longrightarrow> \<not> success (makeQueueRequest (queue_fetch env p))"
  by (cases p) (simp_all add: all_fail_def)

lemma try_processors_all_fail:
  "all_fail env \<Longrightarrow> try_processors env ps = (None, ps)"
  by (induction ps) (simp_all add: all_fail_any)

lemma try_processors_winner:
  "fst (try_processors env ps) = Some p
   \<Longrightarrow> p \<in> set ps \<and> success (makeQueueRequest (queue_fetch env p))"
  by (induction ps) (auto split: if_splits prod.splits)

lemma try_processors_none:
  "(fst (try_processors env ps) = None)
   = (\<forall>p\<in>set ps. \<not> success (makeQueueRequest (queue_fetch env p)))"
  by (induction ps) (auto split: prod.splits)

lemma try_processors_last:
  "p \<in> set (snd (try_processors env ps)) \<Longrightarrow> success (makeQueueRequest (queue_fetch env p))
   \<Longrightarrow> fst (try_processors env ps) = Some p \<and> last (snd (try_processors env ps)) = p"
proof (induction ps)
  case Nil
  then show ?case by simp
next
  case (Cons q qs)
  show ?case
  proof (cases "success (makeQueueRequest (queue_fetch env q))")
    case True
    then show ?thesis using Cons.prems by simp
  next
    case False
    then have "p \<noteq> q" using Cons.prems(2) by auto
    then have "p \<in> set (snd (try_processors env qs))"
      using Cons.prems(1) False by (simp split: prod.splits)
    from Cons.IH [OF this Cons.prems(2)] this show ?thesis
      using False by (auto split: prod.splits)
  qed
qed

lemma process_not_due:
  "proc_now env - lastAttempt payment < delay payment
   \<Longrightarrow> processQueuedPayment env h payment qs store
       = \<lparr>shouldRemove = False, payment_after = payment, qstats_after = qs,
          ledger_after = store, requested = []\<rparr>"
  by (simp add: processQueuedPayment_def)

lemma process_all_fail:
  assumes "\<not> proc_now env - lastAttempt payment < delay payment" and "all_fail env"
  shows "processQueuedPayment env h payment qs store
       = (if attempts payment + 1 \<ge> maxRetries payment
          then \<lparr>shouldRemove = True,
                payment_after = payment\<lparr>attempts := attempts payment + 1,
                                         lastAttempt := proc_now env\<rparr>,
                qstats_after = qs\<lparr>failed := failed qs + 1\<rparr>,
                ledger_after = store, requested = processorsToTry h\<rparr>
          else \<lparr>shouldRemove = False,
                payment_after = payment\<lparr>attempts := attempts payment + 1,
                                         lastAttempt := proc_now env,
                                         delay := min (delay payment * QUEUE_BACKOFF_MULTIPLIER)
                                                      QUEUE_MAX_DELAY\<rparr>,
                qstats_after = qs\<lparr>retries := retries qs + 1\<rparr>,
                ledger_after = store, requested = processorsToTry h\<rparr>)"
  using assms by (simp add: processQueuedPayment_def Let_def try_processors_all_fail)

lemma process_winner:
  assumes "\<not> proc_now env - lastAttempt payment < delay payment"
    and "fst (try_processors env (processorsToTry h)) = Some proc"
  shows "processQueuedPayment env h payment qs store
       = \<lparr>shouldRemove = True,
          payment_after = payment\<lparr>attempts := attempts payment + 1, lastAttempt := proc_now env\<rparr>,
          qstats_after = qs\<lparr>processed := processed qs + 1\<rparr>,
          ledger_after =
            (case registerPayment (redis_up env) (redis_now env) proc (amount payment) None store of
               Inl e \<Rightarrow> store | Inr store' \<Rightarrow> store'),
          requested = snd (try_processors env (processorsToTry h))\<rparr>"
proof (cases "try_processors env (processorsToTry h)")
  case (Pair winner reqs)
  then have "winner = Some proc" using assms(2) by simp
  then show ?thesis using assms(1) Pair by (simp add: processQueuedPayment_def Let_def)
qed

text \<open>
  In the queue a request answered below 500 with a body that is read is the last one of
  the visit, and the visit removes the item as processed.
\<close>

lemma queued_client_error_settles:
  assumes "\<not> proc_now env - lastAttempt payment < delay payment"
    and "proc \<in> set (requested (processQueuedPayment env h payment qs store))"
    and "queue_fetch env proc = Resp st (Some body)" and "st < 500"
  shows "shouldRemove (processQueuedPayment env h payment qs store)
       \<and> last (requested (processQueuedPayment env h payment qs store)) = proc
       \<and> processed (qstats_after (processQueuedPayment env h payment qs store))
           = processed qs + 1"
proof -
  have ok: "success (makeQueueRequest (queue_fetch env proc))"
    using assms(3,4) by (simp add: makeQueueRequest_def ok_result_def)
  have req: "requested (processQueuedPayment env h payment qs store)
      = snd (try_processors env (processorsToTry h))"
    using assms(1) by (simp add: processQueuedPayment_def Let_def split: prod.splits option.splits)
  from try_processors_last [OF _ ok, of "processorsToTry h"] assms(2) req
  have w: "fst (try_processors env (processorsToTry h)) = Some proc"
    and l: "last (snd (try_processors env (processorsToTry h))) = proc" by simp_all
  show ?thesis using l by (simp add: process_winner [OF assms(1) w])
qed

lemma visits_all_fail:
  assumes "\<forall>v\<in>set vs. all_fail (fst v)" and "attempts payment < maxRetries payment"
  shows "attempts (payment_after (fst (visits vs payment qs store))) = attempts payment + snd (visits vs payment qs store)
       \<and> attempts (payment_after (fst (visits vs payment qs store))) \<le> maxRetries payment
       \<and> shouldRemove (fst (visits vs payment qs store))
           = (attempts (payment_after (fst (visits vs payment qs store))) = maxRetries payment)
       \<and> (shouldRemove (fst (visits vs payment qs store))
            \<longrightarrow> failed (qstats_after (fst (visits vs payment qs store))) = failed qs + 1)
       \<and> failed (qstats_after (fst (visits vs payment qs store))) \<le> failed qs + 1
       \<and> ledger_after (fst (visits vs payment qs store)) = store"
  using assms
proof (induction vs arbitrary: payment qs store)
  case Nil
  then show ?case by simp
next
  case (Cons v vs)
  obtain env h where v: "v = (env, h)" by (cases v)
  have fail: "all_fail env" and rest: "\<forall>v\<in>set vs. all_fail (fst v)"
    using Cons.prems(1) v by simp_all
  show ?case
  proof (cases "proc_now env - lastAttempt payment < delay payment")
    case True
    show ?thesis
      using Cons.IH [OF rest Cons.prems(2), of qs store]
      by (simp add: v process_not_due [OF True] case_prod_beta)
  next
    case False
    note run = process_all_fail [OF False fail, of h qs store]
    show ?thesis
    proof (cases "attempts payment + 1 \<ge> maxRetries payment")
      case True
      then show ?thesis using Cons.prems(2)
        by (simp add: v run processorsToTry_nonempty)
    next
      case False
      let ?p = "payment\<lparr>attempts := attempts payment + 1, lastAttempt := proc_now env,
                  delay := min (delay payment * QUEUE_BACKOFF_MULTIPLIER) QUEUE_MAX_DELAY\<rparr>"
      have "attempts ?p < maxRetries ?p" using False by simp
      from Cons.IH [OF rest this, of "qs\<lparr>retries := retries qs + 1\<rparr>" store]
      show ?thesis using False
        by (simp add: v run processorsToTry_nonempty case_prod_beta)
    qed
  qed
qed

lemma visits_spaced:
  assumes "\<forall>v\<in>set vs. all_fail (fst v)" and "attempts payment < maxRetries payment"
    and "spaced (lastAttempt payment) vs" and "delay payment \<le> QUEUE_MAX_DELAY"
  shows "snd (visits vs payment qs store) = min (length vs) (maxRetries payment - attempts payment)
       \<and> shouldRemove (fst (visits vs payment qs store))
           = (length vs \<ge> maxRetries payment - attempts payment)"
  using assms
proof (induction vs arbitrary: payment qs store)
  case Nil
  then show ?case by simp
next
  case (Cons v vs)
  obtain env h where v: "v = (env, h)" by (cases v)
  have fail: "all_fail env" and rest: "\<forall>v\<in>set vs. all_fail (fst v)"
    using Cons.prems(1) v by simp_all
  have gap: "proc_now env - lastAttempt payment \<ge> QUEUE_MAX_DELAY"
    and later: "spaced (proc_now env) vs"
    using Cons.prems(3) v by simp_all
  then have due: "\<not> proc_now env - lastAttempt payment < delay payment"
    using Cons.prems(4) by simp
  note run = process_all_fail [OF due fail, of h qs store]
  show ?case
  proof (cases "attempts payment + 1 \<ge> maxRetries payment")
    case True
    then show ?thesis using Cons.prems(2)
      by (auto simp: v run processorsToTry_nonempty)
  next
    case False
    let ?p = "payment\<lparr>attempts := attempts payment + 1, lastAttempt := proc_now env,
                delay := min (delay payment * QUEUE_BACKOFF_MULTIPLIER) QUEUE_MAX_DELAY\<rparr>"
    have a: "attempts ?p < maxRetries ?p" using False by simp
    have s: "spaced (lastAttempt ?p) vs" using later by simp
    have d: "delay ?p \<le> QUEUE_MAX_DELAY" by simp
    from Cons.IH [OF rest a s d, of "qs\<lparr>retries := retries qs + 1\<rparr>" store]
    show ?thesis using False
      by (auto simp: v run processorsToTry_nonempty case_prod_beta)
  qed
qed

lemma processQueue_single:
  assumes "paymentQueue q = [payment]"
  shows "paymentQueue (fst (snd (processQueue cenv q store)))
         = (if shouldRemove (processQueuedPayment (item_env cenv 0)
                  (queueHealthCheck (import_ok cenv) (item_env cenv 0)) payment (queueStats q) store)
            then []
            else [payment_after (processQueuedPayment (item_env cenv 0)
                  (queueHealthCheck (import_ok cenv) (item_env cenv 0)) payment (queueStats q) store)])
       \<and> queueStats (fst (snd (processQueue cenv q store)))
         = qstats_after (processQueuedPayment (item_env cenv 0)
                  (queueHealthCheck (import_ok cenv) (item_env cenv 0)) payment (queueStats q) store)
       \<and> snd (snd (processQueue cenv q store))
         = ledger_after (processQueuedPayment (item_env cenv 0)
                  (queueHealthCheck (import_ok cenv) (item_env cenv 0)) payment (queueStats q) store)"
  using assms by (simp add: processQueue_def Let_def QUEUE_BATCH_SIZE_def)

text \<open>
  Draining a queue that holds one payment: the item and the ledger go through the
  visits, and once the item is dropped the queue stays empty.
\<close>

lemma drain_empty:
  "paymentQueue q = []
   \<Longrightarrow> paymentQueue (fst (drain cs q store)) = [] \<and> snd (drain cs q store) = store
       \<and> queueStats (fst (drain cs q store)) = queueStats q"
  by (induction cs arbitrary: q) (simp_all add: processQueue_def)

lemma processQueue_single_again:
  "paymentQueue q = [payment] \<Longrightarrow> \<exists>interval. fst (processQueue cenv q store) = Again interval"
  by (simp add: processQueue_def Let_def)

lemma drain_single:
  assumes "paymentQueue q = [payment]"
  shows "paymentQueue (fst (drain cs q store))
         = (if shouldRemove (fst (visits (map visit_of cs) payment (queueStats q) store)) then []
            else [payment_after (fst (visits (map visit_of cs) payment (queueStats q) store))])
       \<and> queueStats (fst (drain cs q store))
         = qstats_after (fst (visits (map visit_of cs) payment (queueStats q) store))
       \<and> snd (drain cs q store)
         = ledger_after (fst (visits (map visit_of cs) payment (queueStats q) store))"
  using assms
proof (induction cs arbitrary: q payment store)
  case Nil
  then show ?case by simp
next
  case (Cons cenv cs)
  let ?run = "processQueuedPayment (item_env cenv 0)
      (queueHealthCheck (import_ok cenv) (item_env cenv 0)) payment (queueStats q) store"
  obtain sch q' store' where pq: "processQueue cenv q store = (sch, q', store')"
    by (cases "processQueue cenv q store") auto
  from processQueue_single_again [OF Cons.prems, of cenv store] pq
  obtain interval where sch: "sch = Again interval" by auto
  from processQueue_single [OF Cons.prems, of cenv store] pq
  have q': "paymentQueue q' = (if shouldRemove ?run then [] else [payment_after ?run])"
    and st: "queueStats q' = qstats_after ?run" and l: "store' = ledger_after ?run"
    by simp_all
  have step: "drain (cenv # cs) q store = drain cs q' store'"
    by (simp add: pq sch)
  show ?case
  proof (cases "shouldRemove ?run")
    case True
    then have fv: "fst (visits (map visit_of (cenv # cs)) payment (queueStats q) store) = ?run"
      by (simp add: visit_of_def Let_def)
    have "paymentQueue q' = []" using q' True by simp
    from drain_empty [OF this, of cs store'] show ?thesis
      unfolding step fv using True st l by simp
  next
    case False
    then have fv: "fst (visits (map visit_of (cenv # cs)) payment (queueStats q) store)
        = fst (visits (map visit_of cs) (payment_after ?run) (qstats_after ?run)
                 (ledger_after ?run))"
      by (simp add: visit_of_def Let_def case_prod_beta)
    have "paymentQueue q' = [payment_after ?run]" using q' False by simp
    from Cons.IH [OF this, of store'] show ?thesis
      unfolding step fv using st l by simp
  qed
qed

lemma queuePayment_item:
  "length (paymentQueue q) < QUEUE_MAX_SIZE
   \<Longrightarrow> paymentQueue (snd (queuePayment env body q))
       = paymentQueue q
         @ [\<lparr>correlationId = correlationId body, amount = amount body, qid = enq_id env,
             attempts = 0, lastAttempt = 0, maxRetries = 3, delay = 2000,
             originalRequestTime = enq_now env, requestedAt = enq_iso env\<rparr>]"
  by (simp add: queuePayment_def Let_def startQueueProcessor_def QUEUE_MAX_RETRIES_def
        QUEUE_INITIAL_DELAY_def)

text \<open>
  C3 (amended). A queued payment with no attempt made yet and \<open>maxRetries > 0\<close> (every
  item \<open>queuePayment\<close> creates: \<open>maxRetries = 3\<close>), all of whose requests fail: over any
  sequence of visits at most \<open>maxRetries\<close> attempts are made; the item is removed, counted
  as failed and with nothing written to the ledger, exactly at the visit that makes the
  \<open>maxRetries\<close>-th attempt (so no further attempt follows); and when the visits are spaced
  so that each passes the delay gate, it is removed exactly when \<open>maxRetries\<close> visits
  have been paid.
\<close>

theorem exhausted_after_maxRetries_attempts:
  assumes "\<forall>v\<in>set vs. all_fail (fst v)" and "attempts payment = 0" and "0 < maxRetries payment"
  shows "snd (visits vs payment qs store) \<le> maxRetries payment
       \<and> shouldRemove (fst (visits vs payment qs store))
           = (snd (visits vs payment qs store) = maxRetries payment)
       \<and> attempts (payment_after (fst (visits vs payment qs store)))
           = snd (visits vs payment qs store)
       \<and> (shouldRemove (fst (visits vs payment qs store))
            \<longrightarrow> failed (qstats_after (fst (visits vs payment qs store))) = failed qs + 1)
       \<and> ledger_after (fst (visits vs payment qs store)) = store
       \<and> (spaced (lastAttempt payment) vs \<and> delay payment \<le> QUEUE_MAX_DELAY
            \<longrightarrow> shouldRemove (fst (visits vs payment qs store))
                  = (length vs \<ge> maxRetries payment))"
proof -
  have lt: "attempts payment < maxRetries payment" using assms(2,3) by simp
  from visits_all_fail [OF assms(1) lt, of qs store] visits_spaced [OF assms(1) lt, of qs store]
  show ?thesis using assms(2) by (auto simp: min_def)
qed

lemma three_failures_run:
  "visits three_failures sample_item no_stats Map.empty
   = (\<lparr>shouldRemove = True,
       payment_after = sample_item\<lparr>attempts := 3, lastAttempt := 183000, delay := 8000\<rparr>,
       qstats_after = \<lparr>queued = 0, processed = 0, failed = 1, retries = 2\<rparr>,
       ledger_after = Map.empty, requested = [Default, Fallback]\<rparr>, 3)"
  by (simp add: three_failures_def visit_at_def sample_item_def no_stats_def
        processQueuedPayment_def processorsToTry_def makeQueueRequest_def resp_ok_def
        failed_result_def Let_def QUEUE_BACKOFF_MULTIPLIER_def QUEUE_MAX_DELAY_def)

theorem exhausted_after_maxRetries_attempts_witness:
  "all_fail (visit_at 61000 (Resp 503 (Some ''{}'')) True)
   \<and> all_fail (visit_at 183000 Threw True)
   \<and> attempts sample_item = 0 \<and> maxRetries sample_item = 3
   \<and> spaced (lastAttempt sample_item) three_failures
   \<and> shouldRemove (fst (visits three_failures sample_item no_stats Map.empty))
   \<and> snd (visits three_failures sample_item no_stats Map.empty) = 3
   \<and> failed (qstats_after (fst (visits three_failures sample_item no_stats Map.empty))) = 1"
  using exhausted_after_maxRetries_attempts [of three_failures sample_item no_stats Map.empty]
  by (simp add: three_failures_run)
     (simp add: three_failures_def visit_at_def sample_item_def all_fail_def
        makeQueueRequest_def resp_ok_def failed_result_def QUEUE_MAX_DELAY_def no_stats_def)

text \<open>
  C3 as stated fails: the sample item (\<open>maxRetries = 3\<close>) is removed at its third
  failed attempt, not after \<open>maxRetries + 1 = 4\<close>.
\<close>

theorem removed_after_three_not_four_attempts:
  "shouldRemove (fst (visits three_failures sample_item no_stats Map.empty))
   \<and> snd (visits three_failures sample_item no_stats Map.empty) = 3
   \<and> maxRetries sample_item + 1 = 4"
  by (simp add: three_failures_run) (simp add: sample_item_def)

subsection \<open>Retry queue: a ledger write that fails\<close>

text \<open>
  C2 (amended). When a due queued payment settles against a processor and the ledger
  write fails, \<open>processQueuedPayment\<close> still answers "remove": the payment is counted as
  processed, the ledger is unchanged, and the drain cycle drops the item from the queue,
  so no later cycle retries the registration.
\<close>

theorem ledger_failure_still_removes:
  assumes "\<not> proc_now env - lastAttempt payment < delay payment"
    and "\<exists>p\<in>set (processorsToTry h). success (makeQueueRequest (queue_fetch env p))"
    and "\<not> redis_up env"
  shows "shouldRemove (processQueuedPayment env h payment qs store)
       \<and> processed (qstats_after (processQueuedPayment env h payment qs store)) = processed qs + 1
       \<and> ledger_after (processQueuedPayment env h payment qs store) = store
       \<and> (paymentQueue q = [payment] \<and> item_env cenv 0 = env
             \<and> queueHealthCheck (import_ok cenv) env = h
            \<longrightarrow> paymentQueue (fst (snd (processQueue cenv q store))) = []
                \<and> snd (snd (processQueue cenv q store)) = store)"
proof -
  from assms(2) have "fst (try_processors env (processorsToTry h)) \<noteq> None"
    by (simp add: try_processors_none)
  then obtain proc where w: "fst (try_processors env (processorsToTry h)) = Some proc"
    by auto
  have run: "shouldRemove (processQueuedPayment env h payment qs store)
       \<and> processed (qstats_after (processQueuedPayment env h payment qs store)) = processed qs + 1
       \<and> ledger_after (processQueuedPayment env h payment qs store) = store" for qs
    using assms(3) by (simp add: process_winner [OF assms(1) w] registerPayment_def)
  have "paymentQueue q = [payment] \<and> item_env cenv 0 = env
             \<and> queueHealthCheck (import_ok cenv) env = h
            \<longrightarrow> paymentQueue (fst (snd (processQueue cenv q store))) = []
                \<and> snd (snd (processQueue cenv q store)) = store"
    using run [of "queueStats q"] by (auto simp: processQueue_single)
  with run [of qs] show ?thesis by simp
qed

theorem ledger_failure_still_removes_witness:
  "\<not> proc_now settled_unrecorded - lastAttempt sample_item < delay sample_item
   \<and> success (makeQueueRequest (queue_fetch settled_unrecorded Default))
   \<and> \<not> redis_up settled_unrecorded
   \<and> shouldRemove (processQueuedPayment settled_unrecorded (True, False) sample_item no_stats Map.empty)
   \<and> ledger_after (processQueuedPayment settled_unrecorded (True, False) sample_item no_stats Map.empty)
       = Map.empty
   \<and> paymentQueue (fst (snd (processQueue (cycle_of settled_unrecorded) one_queued Map.empty))) = []"
  using ledger_failure_still_removes [of settled_unrecorded sample_item "(True, False)"
      no_stats Map.empty one_queued "cycle_of settled_unrecorded"]
  by (simp add: settled_unrecorded_def visit_at_def sample_item_def processorsToTry_def
        makeQueueRequest_def resp_ok_def ok_result_def one_queued_def empty_queue_def
        cycle_of_def queueHealthCheck_def settledHealthy_def checkHealth_def)

text \<open>
  C2 as stated fails: the sample item settles on the default processor while Redis is
  down; the item is not kept in the queue.
\<close>

theorem settled_item_dropped_when_ledger_write_fails:
  "success (makeQueueRequest (queue_fetch settled_unrecorded Default))
   \<and> registerPayment (redis_up settled_unrecorded) (redis_now settled_unrecorded) Default
        (amount sample_item) None Map.empty = Inl RedisError
   \<and> shouldRemove (processQueuedPayment settled_unrecorded (True, False) sample_item no_stats Map.empty)
   \<and> paymentQueue (fst (snd (processQueue (cycle_of settled_unrecorded) one_queued Map.empty))) = []"
  by (simp add: settled_unrecorded_def visit_at_def sample_item_def processorsToTry_def
        makeQueueRequest_def resp_ok_def ok_result_def one_queued_def empty_queue_def
        cycle_of_def queueHealthCheck_def settledHealthy_def checkHealth_def
        processQueue_def processQueuedPayment_def registerPayment_def Let_def
        QUEUE_BATCH_SIZE_def no_stats_def)

subsection \<open>Settlement ledger\<close>

text \<open>
  \<open>registerPayment\<close> itself is idempotent in the key it is given, and writes no other key.
\<close>

lemma registerPayment_idempotent:
  assumes "registerPayment True t1 proc1 amount1 cid store = Inr store1"
  shows "registerPayment True t2 proc2 amount2 cid store1 = Inr store1"
  using assms by (auto simp: registerPayment_def Let_def split: if_splits)

lemma registerPayment_one_key:
  assumes "registerPayment up t proc amt cid store = Inr store1" and "key \<noteq> payment_key cid"
  shows "store1 key = store key"
  using assms by (auto simp: registerPayment_def Let_def split: if_splits)

lemma makeRequest_ok_200:
  "makeRequest (always (Resp 200 (Some ''{}''))) initialStats
   = \<lparr>result = ok_result ''{}'' 200, stats_after = initialStats, fetches = 1, waits = []\<rparr>"
  by (simp add: makeRequest_def always_def initialStats_def isCircuitOpen_def attempt_loop.simps
        MAX_RETRIES_def resp_ok_def recordSucces_def)

lemma first_payment:
  "payments (request_with (always (Resp 200 (Some ''{}'')))) sample_body both_healthy
   = (Reply 200 (DownstreamBody (Some ''{}'')),
      both_healthy\<lparr>ledger := [''payment:undefined'' \<mapsto>
         \<lparr>h_processor = Default, h_amount = 10, h_correlationId = None, h_timestamp = 3100\<rparr>]\<rparr>)"
  by (simp add: payments_def request_with_def both_healthy_def getHealth_def health_at_def
        initialPayments_def HEALTH_TTL_def try_default_def makeRequest_ok_200 Let_def
        ok_result_def settle_def registerPayment_def payment_key_def template_def
        status_or_200_def sample_body_def empty_queue_def QUEUE_MAX_SIZE_def)

text \<open>
  C1. Two payments, \<^verbatim>\<open>a\<close> (amount 10) and then \<^verbatim>\<open>b\<close> (amount 20), each settled directly
  on the default processor with Redis up. Both calls of \<open>registerPayment\<close> leave the
  correlation id out, so the key is \<^verbatim>\<open>payment:undefined\<close>: the first payment is stored
  under that key and not under \<^verbatim>\<open>payment:a\<close>, and the second finds the key present and
  writes nothing, although its reply is the 200 of the processor. The queue processor
  writes under the same key. (The claim asks for each settlement to be recorded under its
  own correlation id.)
\<close>

theorem settlements_keyed_by_undefined:
  "ledger (snd (payments (request_with (always (Resp 200 (Some ''{}'')))) sample_body both_healthy))
     ''payment:a'' = None
   \<and> ledger (snd (payments (request_with (always (Resp 200 (Some ''{}'')))) sample_body both_healthy))
     ''payment:undefined''
     = Some \<lparr>h_processor = Default, h_amount = 10, h_correlationId = None, h_timestamp = 3100\<rparr>
   \<and> fst (payments (request_with (always (Resp 200 (Some ''{}'')))) other_body
         (snd (payments (request_with (always (Resp 200 (Some ''{}'')))) sample_body both_healthy)))
     = Reply 200 (DownstreamBody (Some ''{}''))
   \<and> ledger (snd (payments (request_with (always (Resp 200 (Some ''{}'')))) other_body
         (snd (payments (request_with (always (Resp 200 (Some ''{}'')))) sample_body both_healthy))))
     = ledger (snd (payments (request_with (always (Resp 200 (Some ''{}'')))) sample_body both_healthy))
   \<and> ledger_after (processQueuedPayment (visit_at 61000 (Resp 200 (Some ''{}'')) True)
         (True, True) sample_item no_stats Map.empty) ''payment:a'' = None
   \<and> ledger_after (processQueuedPayment (visit_at 61000 (Resp 200 (Some ''{}'')) True)
         (True, True) sample_item no_stats Map.empty) ''payment:undefined''
     = Some \<lparr>h_processor = Default, h_amount = 10, h_correlationId = None, h_timestamp = 61010\<rparr>"
proof -
  have second: "payments (request_with (always (Resp 200 (Some ''{}'')))) other_body
      (both_healthy\<lparr>ledger := [''payment:undefined'' \<mapsto>
         \<lparr>h_processor = Default, h_amount = 10, h_correlationId = None, h_timestamp = 3100\<rparr>]\<rparr>)
   = (Reply 200 (DownstreamBody (Some ''{}'')),
      both_healthy\<lparr>ledger := [''payment:undefined'' \<mapsto>
         \<lparr>h_processor = Default, h_amount = 10, h_correlationId = None, h_timestamp = 3100\<rparr>]\<rparr>)"
    by (simp add: payments_def request_with_def both_healthy_def getHealth_def health_at_def
        initialPayments_def HEALTH_TTL_def try_default_def makeRequest_ok_200 Let_def
        ok_result_def settle_def registerPayment_def payment_key_def template_def
        status_or_200_def other_body_def empty_queue_def QUEUE_MAX_SIZE_def)
  have queued: "ledger_after (processQueuedPayment (visit_at 61000 (Resp 200 (Some ''{}'')) True)
         (True, True) sample_item no_stats Map.empty)
     = [''payment:undefined'' \<mapsto>
         \<lparr>h_processor = Default, h_amount = 10, h_correlationId = None, h_timestamp = 61010\<rparr>]"
    by (simp add: processQueuedPayment_def visit_at_def sample_item_def processorsToTry_def
          makeQueueRequest_def resp_ok_def ok_result_def registerPayment_def payment_key_def
          template_def Let_def)
  show ?thesis by (simp add: first_payment second queued)
qed

subsection \<open>Routing orchestrator: replies\<close>

lemma attempt_loop_success:
  "success (result (attempt_loop env a s w))
   \<Longrightarrow> \<exists>k st b. k \<le> MAX_RETRIES \<and> fetch env k = Resp st (Some b) \<and> st < 500
         \<and> result (attempt_loop env a s w) = ok_result b st"
proof (induction "MAX_RETRIES + 1 - a" arbitrary: a s w)
  case 0
  then have "\<not> a \<le> MAX_RETRIES" by simp
  then show ?case using "0.prems"
    by (subst (asm) attempt_loop.simps) (simp add: failed_result_def)
next
  case (Suc d)
  then have le: "a \<le> MAX_RETRIES" and d: "d = MAX_RETRIES + 1 - (a + 1)" by simp_all
  note IH = Suc.hyps(1) [OF d]
  show ?case
  proof (cases "fetch env a")
    case Threw
    then have "attempt_loop env a s w
        = attempt_loop env (a + 1) (fst (on_throw env a s w)) (snd (on_throw env a s w))"
      using le by (subst attempt_loop.simps) (simp add: case_prod_beta)
    then show ?thesis using IH Suc.prems by simp
  next
    case (Resp st body)
    show ?thesis
    proof (cases "st \<ge> 500")
      case True
      then have "\<not> resp_ok st" using resp_ok_below_500 [of st] by auto
      then have "attempt_loop env a s w
          = attempt_loop env (a + 1)
              (if a = MAX_RETRIES then recordFailure (fail_time env) s else s) w"
        using le Resp True by (subst attempt_loop.simps) simp
      then show ?thesis using IH Suc.prems by simp
    next
      case False
      show ?thesis
      proof (cases body)
        case None
        then have "attempt_loop env a s w
            = attempt_loop env (a + 1) (fst (on_throw env a (recordSucces s) w))
                (snd (on_throw env a (recordSucces s) w))"
          using le Resp False by (subst attempt_loop.simps) (simp add: case_prod_beta)
        then show ?thesis using IH Suc.prems by simp
      next
        case (Some b)
        then have "result (attempt_loop env a s w) = ok_result b st"
          using le Resp False by (subst attempt_loop.simps) simp
        then show ?thesis using le Resp Some False by auto
      qed
    qed
  qed
qed

lemma makeRequest_success:
  "success (result (makeRequest env stats))
   \<Longrightarrow> \<exists>k st b. k \<le> MAX_RETRIES \<and> fetch env k = Resp st (Some b) \<and> st < 500
         \<and> result (makeRequest env stats) = ok_result b st"
proof (cases "isCircuitOpen (check_time env) stats")
  case (Pair isOpen stats')
  assume ok: "success (result (makeRequest env stats))"
  show ?thesis
  proof (cases isOpen)
    case True
    then show ?thesis using ok Pair by (simp add: makeRequest_def failed_result_def)
  next
    case False
    then have "makeRequest env stats = attempt_loop env 0 stats' []"
      using Pair by (simp add: makeRequest_def)
    then show ?thesis using attempt_loop_success [of env 0 stats' "[]"] ok by simp
  qed
qed

text \<open>
  C4 (amended). With \<open>p1\<close>, \<open>p2\<close> the health pair the handler reads: when a request
  settles directly (on the default processor, or else on the fallback one) and the ledger
  write does not throw, the reply carries the result's status (200 only if that is
  missing or 0) and the downstream body, and that status and body are those of the
  response (below 500, body read) of one of the attempts; a request that settles on
  neither and finds room in the queue is answered 200 with the correlation id, the queue
  id and the queued marker; with both processors unhealthy and the queue at capacity the
  reply is 500 with the overload error; a request that settles on neither and finds the
  queue at capacity is answered 500 with the queue-full error.
\<close>

theorem payments_replies:
  fixes env :: handler_env and body :: PaymentBody and st :: app_state
  defines "h \<equiv> getHealth (health env) (pay st)"
  defines "p1 \<equiv> fst (fst h)" and "p2 \<equiv> snd (fst h)"
  defines "res1 \<equiv> result (makeRequest (request1 env) (processor1Stats (snd (snd h))))"
  defines "res2 \<equiv> result (makeRequest (request2 env) (processor2Stats (snd (snd h))))"
  defines "size' \<equiv> length (paymentQueue (queue st))"
  shows "(p1 \<and> success res1 \<and> ledger_up env
            \<longrightarrow> fst (payments env body st)
                  = Reply (status_or_200 (status res1)) (DownstreamBody (response res1)))
       \<and> (\<not> (p1 \<and> success res1) \<and> p2 \<and> success res2 \<and> ledger_up env
            \<longrightarrow> fst (payments env body st)
                  = Reply (status_or_200 (status res2)) (DownstreamBody (response res2)))
       \<and> (\<not> (p1 \<and> success res1) \<and> \<not> (p2 \<and> success res2) \<and> size' < QUEUE_MAX_SIZE
            \<longrightarrow> fst (payments env body st)
                  = Reply 200 (QueuedBody (correlationId body) (enq_id (enqueue env))))
       \<and> (\<not> p1 \<and> \<not> p2 \<and> size' \<ge> QUEUE_MAX_SIZE
            \<longrightarrow> fst (payments env body st)
                  = Reply 500 (OverloadedBody (correlationId body) size' QUEUE_MAX_SIZE))
       \<and> (\<not> (p1 \<and> success res1) \<and> \<not> (p2 \<and> success res2) \<and> (p1 \<or> p2)
             \<and> size' \<ge> QUEUE_MAX_SIZE
            \<longrightarrow> fst (payments env body st) = Reply 500 (QueueFullBody (correlationId body)))
       \<and> (success (result (makeRequest renv stats))
            \<longrightarrow> (\<exists>k code b. k \<le> MAX_RETRIES \<and> fetch renv k = Resp code (Some b) \<and> code < 500
                  \<and> response (result (makeRequest renv stats)) = Some b
                  \<and> status_or_200 (status (result (makeRequest renv stats)))
                      = (if code = 0 then 200 else code)))"
proof -
  obtain a b n pay1 where hh: "h = ((a, b), n, pay1)" by (cases h) auto
  have p: "p1 = a" "p2 = b" by (simp_all add: p1_def p2_def hh)
  have gh: "getHealth (health env) (pay st) = ((a, b), n, pay1)" using hh h_def by simp
  have r1: "res1 = result (makeRequest (request1 env) (processor1Stats pay1))"
    by (simp add: res1_def hh)
  have r2: "res2 = result (makeRequest (request2 env) (processor2Stats pay1))"
    by (simp add: res2_def hh)
  have enq_ok: "size' < QUEUE_MAX_SIZE \<Longrightarrow>
      fst (enqueue_or_fail env body (st\<lparr>pay := x\<rparr>))
      = Reply 200 (QueuedBody (correlationId body) (enq_id (enqueue env)))" for x
    by (simp add: enqueue_or_fail_def queuePayment_def Let_def size'_def)
  have enq_full: "size' \<ge> QUEUE_MAX_SIZE \<Longrightarrow>
      fst (enqueue_or_fail env body (st\<lparr>pay := x\<rparr>)) = Reply 500 (QueueFullBody (correlationId body))"
    for x
    by (simp add: enqueue_or_fail_def queuePayment_def Let_def size'_def)
  have settle_ok: "ledger_up env \<Longrightarrow>
      fst (settle env proc body res x) = Reply (status_or_200 (status res)) (DownstreamBody (response res))"
    for proc res x
    by (simp add: settle_def registerPayment_def Let_def)
  have c1: "p1 \<and> success res1 \<and> ledger_up env
            \<longrightarrow> fst (payments env body st)
                  = Reply (status_or_200 (status res1)) (DownstreamBody (response res1))"
    using settle_ok by (simp add: payments_def gh p r1 try_default_def Let_def)
  have c2: "\<not> (p1 \<and> success res1) \<and> p2 \<and> success res2 \<and> ledger_up env
            \<longrightarrow> fst (payments env body st)
                  = Reply (status_or_200 (status res2)) (DownstreamBody (response res2))"
    using settle_ok
    by (auto simp: payments_def gh p r1 r2 try_default_def try_fallback_def Let_def)
  have c3: "\<not> (p1 \<and> success res1) \<and> \<not> (p2 \<and> success res2) \<and> size' < QUEUE_MAX_SIZE
            \<longrightarrow> fst (payments env body st)
                  = Reply 200 (QueuedBody (correlationId body) (enq_id (enqueue env)))"
    using enq_ok
    by (auto simp: payments_def gh p r1 r2 try_default_def try_fallback_def Let_def size'_def)
  have c4: "\<not> p1 \<and> \<not> p2 \<and> size' \<ge> QUEUE_MAX_SIZE
            \<longrightarrow> fst (payments env body st)
                  = Reply 500 (OverloadedBody (correlationId body) size' QUEUE_MAX_SIZE)"
    by (simp add: payments_def gh p size'_def)
  have c5: "\<not> (p1 \<and> success res1) \<and> \<not> (p2 \<and> success res2) \<and> (p1 \<or> p2)
             \<and> size' \<ge> QUEUE_MAX_SIZE
            \<longrightarrow> fst (payments env body st) = Reply 500 (QueueFullBody (correlationId body))"
    using enq_full
    by (auto simp: payments_def gh p r1 r2 try_default_def try_fallback_def Let_def size'_def)
  have c6: "success (result (makeRequest renv stats))
            \<longrightarrow> (\<exists>k code b. k \<le> MAX_RETRIES \<and> fetch renv k = Resp code (Some b) \<and> code < 500
                  \<and> response (result (makeRequest renv stats)) = Some b
                  \<and> status_or_200 (status (result (makeRequest renv stats)))
                      = (if code = 0 then 200 else code))"
  proof
    assume "success (result (makeRequest renv stats))"
    from makeRequest_success [OF this] obtain k code b where
      "k \<le> MAX_RETRIES" "fetch renv k = Resp code (Some b)" "code < 500"
      "result (makeRequest renv stats) = ok_result b code" by blast
    then show "\<exists>k code b. k \<le> MAX_RETRIES \<and> fetch renv k = Resp code (Some b) \<and> code < 500
                  \<and> response (result (makeRequest renv stats)) = Some b
                  \<and> status_or_200 (status (result (makeRequest renv stats)))
                      = (if code = 0 then 200 else code)"
      by (intro exI [of _ k] exI [of _ code] exI [of _ b])
         (simp add: ok_result_def status_or_200_def)
  qed
  from c1 c2 c3 c4 c5 c6 show ?thesis by blast
qed

theorem payments_replies_witness:
  "fst (fst (getHealth (health (request_with (always (Resp 200 (Some ''{}''))))) (pay both_healthy)))
   \<and> success (result (makeRequest (request1 (request_with (always (Resp 200 (Some ''{}'')))))
        (processor1Stats (snd (snd (getHealth (health (request_with (always (Resp 200 (Some ''{}'')))))
           (pay both_healthy)))))))
   \<and> ledger_up (request_with (always (Resp 200 (Some ''{}''))))
   \<and> fst (payments (request_with (always (Resp 200 (Some ''{}'')))) sample_body both_healthy)
       = Reply 200 (DownstreamBody (Some ''{}''))
   \<and> fst (payments (request_with (always Threw)) sample_body both_healthy)
       = Reply 200 (QueuedBody ''a'' ''payment_1000_k3j9x2m1q'')
   \<and> fst (payments (request_with (always Threw)) sample_body (both_healthy\<lparr>queue := full_queue\<rparr>))
       = Reply 500 (QueueFullBody ''a'')"
  using payments_replies [of "request_with (always (Resp 200 (Some ''{}'')))" both_healthy
      sample_body "always (Resp 200 (Some ''{}''))" initialStats]
    payments_replies [of "request_with (always Threw)" both_healthy sample_body
      "always Threw" initialStats]
    payments_replies [of "request_with (always Threw)" "both_healthy\<lparr>queue := full_queue\<rparr>"
      sample_body "always Threw" initialStats]
  by (simp add: request_with_def both_healthy_def getHealth_def health_at_def
        initialPayments_def HEALTH_TTL_def makeRequest_ok_200 network_errors_back_off
        ok_result_def failed_result_def status_or_200_def sample_body_def sample_enqueue_def
        empty_queue_def full_queue_def QUEUE_MAX_SIZE_def)

text \<open>
  C4 as stated fails: the default processor answers 422, the payment counts as settled
  directly (it is written to the ledger) and the reply status is 422, not 200.
\<close>

theorem direct_settlement_replies_with_downstream_status:
  "fst (payments (request_with (always (Resp 422 (Some ''{}'')))) sample_body both_healthy)
     = Reply 422 (DownstreamBody (Some ''{}''))
   \<and> ledger (snd (payments (request_with (always (Resp 422 (Some ''{}'')))) sample_body both_healthy))
        ''payment:undefined''
     = Some \<lparr>h_processor = Default, h_amount = 10, h_correlationId = None, h_timestamp = 3100\<rparr>
   \<and> (422::nat) \<noteq> 200"
proof -
  have run: "makeRequest (always (Resp 422 (Some ''{}''))) initialStats
     = \<lparr>result = ok_result ''{}'' 422, stats_after = initialStats, fetches = 1, waits = []\<rparr>"
    by (simp add: makeRequest_def always_def initialStats_def isCircuitOpen_def attempt_loop.simps
        MAX_RETRIES_def resp_ok_def recordSucces_def)
  show ?thesis
    by (simp add: payments_def request_with_def both_healthy_def getHealth_def health_at_def
        initialPayments_def HEALTH_TTL_def try_default_def run Let_def
        ok_result_def settle_def registerPayment_def payment_key_def template_def
        status_or_200_def sample_body_def empty_queue_def QUEUE_MAX_SIZE_def)
qed

text \<open>
  When the ledger write of a direct settlement throws, the handler has no \<^verbatim>\<open>catch\<close> for
  it: the request ends with the exception instead of a reply of its own.
\<close>

lemma settled_but_ledger_down:
  "fst (payments ((request_with (always (Resp 200 (Some ''{}''))))\<lparr>ledger_up := False\<rparr>)
         sample_body both_healthy)
   = Uncaught RedisError"
  by (simp add: payments_def request_with_def both_healthy_def getHealth_def health_at_def
        initialPayments_def HEALTH_TTL_def try_default_def makeRequest_ok_200 Let_def
        ok_result_def settle_def registerPayment_def empty_queue_def QUEUE_MAX_SIZE_def)

end
